theory Spec2Isabelle
  imports Main
begin

section \<open>The barrier package: data model\<close>

text \<open>
  The development embeds the forwarding variant of the package (the file that declares
  \<^verbatim>\<open>forwards\<close>, \<^verbatim>\<open>backwards\<close> and \<^verbatim>\<open>FallHook\<close>). A \<^verbatim>\<open>*Barrier\<close> is an
  address; the heap maps every address to a barrier value, and the zero value of the
  struct is what an address holds before its first use.

  \<^item> \<^verbatim>\<open>channel chan struct{}\<close> is a pointer to a channel object: \<open>None\<close> is the nil
    channel, \<open>Some c\<close> the object \<open>c\<close>. Whether a channel object is closed is
    kept in the state, outside the barrier, because it is the object that is closed.
  \<^item> \<^verbatim>\<open>sync.Once\<close> has three observable states: its function has not been started,
    is executing, or has returned. A call of \<^verbatim>\<open>Do\<close> made while the function is
    executing never returns (the documentation of \<^verbatim>\<open>sync.Once\<close>: "if f causes Do to
    be called, it will deadlock").
  \<^item> \<^verbatim>\<open>sync.Mutex\<close> is a flag; \<^verbatim>\<open>Lock\<close> on a held mutex never returns.
  \<^item> \<^verbatim>\<open>map[*Barrier]struct{}\<close> is a set of addresses: \<open>None\<close> is the nil map,
    \<open>Some ks\<close> a map with the keys \<open>ks\<close>. The list fixes the order in which
    \<^verbatim>\<open>range\<close> visits the keys; Go leaves that order open, and every map of a barrier
    is ranged over at most once (inside the function of \<^verbatim>\<open>fallOnce\<close>), so a
    statement about all states covers every order.
  \<^item> \<^verbatim>\<open>FallHook func()\<close> is caller code. The model records whether a hook is set;
    the hook itself is taken not to touch any barrier.
  \<^item> The state carries a log (\<open>trace\<close>) of the two effects an observer can see, in
    the order in which they happen: a hook being called and a channel being closed.
    Nothing in the model reads the log.
\<close>

type_synonym addr = nat
type_synonym chan_id = nat

datatype once = Fresh | Running | Done

record barrier =
  channel :: "chan_id option"
  initOnce :: once
  fallOnce :: once
  m :: bool
  forwards :: "addr list option"
  backwards :: "addr list option"
  FallHook :: bool

datatype event = HookCalled addr | ChanClosed addr

record state =
  heap :: "addr \<Rightarrow> barrier"
  closed :: "chan_id \<Rightarrow> bool"
  next_chan :: chan_id
  trace :: "event list"

text \<open>
  A call returns, or never returns because the goroutine blocks on a lock that is held
  (\<open>Blocked\<close>), or panics (\<open>Panicked\<close>); each outcome carries the state reached.
\<close>

datatype 'a result = Returned 'a state | Blocked state | Panicked state

fun final :: "'a result \<Rightarrow> state" where
  "final (Returned v s) = s"
| "final (Blocked s) = s"
| "final (Panicked s) = s"

definition zero_barrier :: barrier where
  "zero_barrier = \<lparr>channel = None, initOnce = Fresh, fallOnce = Fresh, m = False,
     forwards = None, backwards = None, FallHook = False\<rparr>"

text \<open>All barriers are zero values, except that the caller may have set hooks.\<close>

definition init_state :: "(addr \<Rightarrow> bool) \<Rightarrow> state" where
  "init_state hk = \<lparr>heap = (\<lambda>b. zero_barrier\<lparr>FallHook := hk b\<rparr>),
     closed = (\<lambda>c. False), next_chan = 0, trace = []\<rparr>"

definition upd :: "addr \<Rightarrow> (barrier \<Rightarrow> barrier) \<Rightarrow> state \<Rightarrow> state" where
  "upd b f s = s\<lparr>heap := (heap s)(b := f (heap s b))\<rparr>"

subsection \<open>Maps of barriers\<close>

fun keys :: "addr list option \<Rightarrow> addr list" where
  "keys None = []"
| "keys (Some ks) = ks"

definition map_insert :: "addr \<Rightarrow> addr list \<Rightarrow> addr list" where
  "map_insert k ks = (if k \<in> set ks then ks else ks @ [k])"

text \<open>\<^verbatim>\<open>delete(m, k)\<close>; on a nil map it does nothing.\<close>

fun map_delete :: "addr \<Rightarrow> addr list option \<Rightarrow> addr list option" where
  "map_delete k None = None"
| "map_delete k (Some ks) = Some (removeAll k ks)"

subsection \<open>Mutex and channel primitives\<close>

definition lock :: "addr \<Rightarrow> state \<Rightarrow> unit result" where
  "lock b s = (if m (heap s b) then Blocked s else Returned () (upd b (\<lambda>x. x\<lparr>m := True\<rparr>) s))"

definition unlock :: "addr \<Rightarrow> state \<Rightarrow> state" where
  "unlock b s = upd b (\<lambda>x. x\<lparr>m := False\<rparr>) s"

text \<open>\<^verbatim>\<open>make(chan struct{})\<close> stored into \<^verbatim>\<open>b.channel\<close>.\<close>

definition make_chan :: "addr \<Rightarrow> state \<Rightarrow> state" where
  "make_chan b s = (upd b (\<lambda>x. x\<lparr>channel := Some (next_chan s)\<rparr>) s)
     \<lparr>closed := (closed s)(next_chan s := False), next_chan := Suc (next_chan s)\<rparr>"

text \<open>\<^verbatim>\<open>close(b.channel)\<close>: closing a nil or a closed channel panics.\<close>

definition close_chan :: "addr \<Rightarrow> state \<Rightarrow> unit result" where
  "close_chan b s =
     (case channel (heap s b) of
        None \<Rightarrow> Panicked s
      | Some c \<Rightarrow>
          if closed s c then Panicked s
          else Returned () (s\<lparr>closed := (closed s)(c := True), trace := trace s @ [ChanClosed b]\<rparr>))"

text \<open>
  The \<^verbatim>\<open>select\<close> with \<^verbatim>\<open>case <-b.channel\<close> and a \<^verbatim>\<open>default\<close>: nothing is ever sent
  on the channel, so the receive is ready exactly when the channel is closed; a nil
  channel is never ready. This is also what a reader of \<^verbatim>\<open>b.Barrier()\<close> observes.
\<close>

definition fallen :: "state \<Rightarrow> addr \<Rightarrow> bool" where
  "fallen s b = (case channel (heap s b) of None \<Rightarrow> False | Some c \<Rightarrow> closed s c)"

definition call_hook :: "addr \<Rightarrow> state \<Rightarrow> state" where
  "call_hook b s = (if FallHook (heap s b) then s\<lparr>trace := trace s @ [HookCalled b]\<rparr> else s)"

section \<open>The operations\<close>

subsection \<open>init\<close>

definition init :: "addr \<Rightarrow> state \<Rightarrow> unit result" where
  "init b s =
     (case initOnce (heap s b) of
        Done \<Rightarrow> Returned () s
      | Running \<Rightarrow> Blocked s
      | Fresh \<Rightarrow>
          (let s1 = make_chan b (upd b (\<lambda>x. x\<lparr>initOnce := Running\<rparr>) s) in
           case lock b s1 of
             Returned _ s2 \<Rightarrow>
               Returned ()
                 (upd b (\<lambda>x. x\<lparr>initOnce := Done\<rparr>)
                   (unlock b (upd b (\<lambda>x. x\<lparr>forwards := Some [], backwards := Some []\<rparr>) s2)))
           | Blocked s2 \<Rightarrow> Blocked s2
           | Panicked s2 \<Rightarrow> Panicked s2))"

subsection \<open>Fall\<close>

text \<open>
  \<^verbatim>\<open>for forward := range b.forwards { forward.Fall() }\<close>. The keys are those of the map
  when the loop starts; a key deleted from the map before the loop reaches it is not
  produced (the falls of the loop delete from this very map). \<open>call\<close> is
  \<^verbatim>\<open>Fall\<close>.
\<close>

fun range_forwards ::
  "(addr \<Rightarrow> state \<Rightarrow> unit result option) \<Rightarrow> addr \<Rightarrow> addr list \<Rightarrow> state \<Rightarrow> unit result option"
where
  "range_forwards call b [] s = Some (Returned () s)"
| "range_forwards call b (f # fs) s =
     (if f \<in> set (keys (forwards (heap s b))) then
        (case call f s of
           Some (Returned _ s') \<Rightarrow> range_forwards call b fs s'
         | r \<Rightarrow> r)
      else range_forwards call b fs s)"

text \<open>
  \<^verbatim>\<open>for backward := range b.backwards { lock; delete(backward.forwards, b); unlock }\<close>.
\<close>

fun range_backwards :: "addr \<Rightarrow> addr list \<Rightarrow> state \<Rightarrow> unit result" where
  "range_backwards b [] s = Returned () s"
| "range_backwards b (p # ps) s =
     (case lock p s of
        Returned _ s1 \<Rightarrow>
          range_backwards b ps
            (unlock p (upd p (\<lambda>x. x\<lparr>forwards := map_delete b (forwards x)\<rparr>) s1))
      | Blocked s1 \<Rightarrow> Blocked s1
      | Panicked s1 \<Rightarrow> Panicked s1)"

text \<open>
  The first part of the function given to \<^verbatim>\<open>fallOnce.Do\<close>: under the lock of \<open>b\<close>,
  call the hook, then close the channel.
\<close>

definition fire :: "addr \<Rightarrow> state \<Rightarrow> unit result" where
  "fire b s =
     (case lock b s of
        Returned _ s1 \<Rightarrow>
          (case close_chan b (call_hook b s1) of
             Returned _ s2 \<Rightarrow> Returned () (unlock b s2)
           | Blocked s2 \<Rightarrow> Blocked s2
           | Panicked s2 \<Rightarrow> Panicked s2)
      | Blocked s1 \<Rightarrow> Blocked s1
      | Panicked s1 \<Rightarrow> Panicked s1)"

text \<open>
  \<^verbatim>\<open>Fall\<close> calls itself through the forwards; the first argument bounds the depth of
  these calls, and \<open>None\<close> means the bound was too small.
\<close>

primrec Fall :: "nat \<Rightarrow> addr \<Rightarrow> state \<Rightarrow> unit result option" where
  "Fall 0 b s = None"
| "Fall (Suc n) b s =
     (case init b s of
        Returned _ s0 \<Rightarrow>
          (case fallOnce (heap s0 b) of
             Done \<Rightarrow> Some (Returned () s0)
           | Running \<Rightarrow> Some (Blocked s0)
           | Fresh \<Rightarrow>
               (case fire b (upd b (\<lambda>x. x\<lparr>fallOnce := Running\<rparr>) s0) of
                  Returned _ s1 \<Rightarrow>
                    (case range_forwards (Fall n) b (keys (forwards (heap s1 b))) s1 of
                       Some (Returned _ s2) \<Rightarrow>
                         (let s3 = upd b (\<lambda>x. x\<lparr>forwards := None\<rparr>) s2 in
                          case range_backwards b (keys (backwards (heap s3 b))) s3 of
                            Returned _ s4 \<Rightarrow>
                              Some (Returned () (upd b (\<lambda>x. x\<lparr>fallOnce := Done\<rparr>) s4))
                          | Blocked s4 \<Rightarrow> Some (Blocked s4)
                          | Panicked s4 \<Rightarrow> Some (Panicked s4))
                     | r \<Rightarrow> r)
                | Blocked s1 \<Rightarrow> Some (Blocked s1)
                | Panicked s1 \<Rightarrow> Some (Panicked s1)))
      | Blocked s0 \<Rightarrow> Some (Blocked s0)
      | Panicked s0 \<Rightarrow> Some (Panicked s0))"

subsection \<open>Forward\<close>

text \<open>
  The closure of \<^verbatim>\<open>Forward\<close>, run under the lock of \<open>b\<close>: if the channel of \<open>b\<close>
  is closed it calls \<^verbatim>\<open>f.Fall()\<close> and returns from the closure; otherwise it stores
  \<open>f\<close> into \<^verbatim>\<open>b.forwards\<close> (a store into a nil map panics).
\<close>

definition forward_locked :: "nat \<Rightarrow> addr \<Rightarrow> addr \<Rightarrow> state \<Rightarrow> unit result option" where
  "forward_locked n b f s =
     (case lock b s of
        Returned _ s1 \<Rightarrow>
          (if fallen s1 b then
             (case Fall n f s1 of
                Some (Returned _ s2) \<Rightarrow> Some (Returned () (unlock b s2))
              | r \<Rightarrow> r)
           else
             (case forwards (heap s1 b) of
                None \<Rightarrow> Some (Panicked s1)
              | Some ks \<Rightarrow>
                  Some (Returned ()
                    (unlock b (upd b (\<lambda>x. x\<lparr>forwards := Some (map_insert f ks)\<rparr>) s1)))))
      | Blocked s1 \<Rightarrow> Some (Blocked s1)
      | Panicked s1 \<Rightarrow> Some (Panicked s1))"

text \<open>The rest of \<^verbatim>\<open>Forward\<close>, after the closure has returned.\<close>

definition register_backward :: "addr \<Rightarrow> addr \<Rightarrow> state \<Rightarrow> unit result" where
  "register_backward b f s =
     (case init f s of
        Returned _ s1 \<Rightarrow>
          (case lock f s1 of
             Returned _ s2 \<Rightarrow>
               (case backwards (heap s2 f) of
                  None \<Rightarrow> Panicked s2
                | Some ks \<Rightarrow>
                    Returned ()
                      (unlock f (upd f (\<lambda>x. x\<lparr>backwards := Some (map_insert b ks)\<rparr>) s2)))
           | Blocked s2 \<Rightarrow> Blocked s2
           | Panicked s2 \<Rightarrow> Panicked s2)
      | Blocked s1 \<Rightarrow> Blocked s1
      | Panicked s1 \<Rightarrow> Panicked s1)"

definition Forward :: "nat \<Rightarrow> addr \<Rightarrow> addr \<Rightarrow> state \<Rightarrow> unit result option" where
  "Forward n b f s =
     (case init b s of
        Returned _ s0 \<Rightarrow>
          (case forward_locked n b f s0 of
             Some (Returned _ s1) \<Rightarrow> Some (register_backward b f s1)
           | r \<Rightarrow> r)
      | Blocked s0 \<Rightarrow> Some (Blocked s0)
      | Panicked s0 \<Rightarrow> Some (Panicked s0))"

subsection \<open>Barrier\<close>

definition Barrier :: "addr \<Rightarrow> state \<Rightarrow> chan_id option result" where
  "Barrier b s =
     (case init b s of
        Returned _ s' \<Rightarrow> Returned (channel (heap s' b)) s'
      | Blocked s' \<Rightarrow> Blocked s'
      | Panicked s' \<Rightarrow> Panicked s')"

section \<open>Programs and what is observed\<close>

text \<open>Two calls made one after the other by one goroutine: the second runs if the first returns.\<close>

definition and_then ::
  "unit result option \<Rightarrow> (state \<Rightarrow> unit result option) \<Rightarrow> unit result option" where
  "and_then r f = (case r of Some (Returned _ s) \<Rightarrow> f s | _ \<Rightarrow> r)"

text \<open>\<^verbatim>\<open>b.Fall()\<close> called \<open>N\<close> times in a row.\<close>

fun Fall_times :: "nat \<Rightarrow> nat \<Rightarrow> addr \<Rightarrow> state \<Rightarrow> unit result option" where
  "Fall_times 0 k b s = Some (Returned () s)"
| "Fall_times (Suc N) k b s = and_then (Fall k b s) (Fall_times N k b)"

definition hook_count :: "state \<Rightarrow> addr \<Rightarrow> nat" where
  "hook_count s b = count_list (trace s) (HookCalled b)"

definition close_count :: "state \<Rightarrow> addr \<Rightarrow> nat" where
  "close_count s b = count_list (trace s) (ChanClosed b)"

text \<open>
  What every step of the package keeps, whatever its outcome: an initialised barrier
  keeps its channel, hooks are not reassigned, a closed channel stays closed, a
  \<^verbatim>\<open>fallOnce\<close> that has been entered is never fresh again and its barrier gets no
  further hook call or close, and the log only grows.
\<close>

definition evolves :: "state \<Rightarrow> state \<Rightarrow> bool" where
  "evolves s s' \<longleftrightarrow>
     (\<forall>x. initOnce (heap s x) \<noteq> Fresh \<longrightarrow>
        initOnce (heap s' x) = initOnce (heap s x) \<and> channel (heap s' x) = channel (heap s x)) \<and>
     (\<forall>x. FallHook (heap s' x) = FallHook (heap s x)) \<and>
     (\<forall>c. c < next_chan s \<longrightarrow> closed s c \<longrightarrow> closed s' c) \<and>
     next_chan s \<le> next_chan s' \<and>
     (\<forall>x. fallOnce (heap s x) \<noteq> Fresh \<longrightarrow>
        fallOnce (heap s' x) \<noteq> Fresh \<and> hook_count s' x = hook_count s x \<and>
        close_count s' x = close_count s x) \<and>
     (\<forall>x. fallOnce (heap s x) = Done \<longrightarrow> fallOnce (heap s' x) = Done) \<and>
     (\<exists>evs. trace s' = trace s @ evs)"

text \<open>What a \<^verbatim>\<open>Fall\<close> that returns keeps in addition: backward sets, and forward sets only shrink.\<close>

definition falls_to :: "state \<Rightarrow> state \<Rightarrow> bool" where
  "falls_to s s' \<longleftrightarrow>
     evolves s s' \<and>
     (\<forall>x. initOnce (heap s x) \<noteq> Fresh \<longrightarrow> backwards (heap s' x) = backwards (heap s x)) \<and>
     (\<forall>x. set (keys (forwards (heap s' x))) \<subseteq> set (keys (forwards (heap s x))))"

text \<open>
  The invariant of the states between calls. A channel pointer is an allocated object,
  belongs to an initialised barrier and to no other barrier; a barrier whose
  \<^verbatim>\<open>fallOnce\<close> is fresh is not fallen and has had no hook call and no close; one whose
  \<^verbatim>\<open>fallOnce\<close> was entered is fallen, was closed once and had its hook called once if
  it has one; one whose \<^verbatim>\<open>fallOnce\<close> is done has a nil forward map.
\<close>

definition chan_ok :: "state \<Rightarrow> addr \<Rightarrow> bool" where
  "chan_ok s x \<longleftrightarrow>
     (\<forall>c. channel (heap s x) = Some c \<longrightarrow>
        c < next_chan s \<and> initOnce (heap s x) \<noteq> Fresh \<and>
        (\<forall>y. channel (heap s y) = Some c \<longrightarrow> y = x))"

definition fire_ok :: "state \<Rightarrow> addr \<Rightarrow> bool" where
  "fire_ok s x \<longleftrightarrow>
     (fallOnce (heap s x) = Fresh \<longrightarrow>
        \<not> fallen s x \<and> close_count s x = 0 \<and> hook_count s x = 0) \<and>
     (fallOnce (heap s x) \<noteq> Fresh \<longrightarrow>
        fallen s x \<and> close_count s x = 1 \<and>
        hook_count s x = of_bool (FallHook (heap s x))) \<and>
     (fallOnce (heap s x) = Done \<longrightarrow> forwards (heap s x) = None)"

definition well_formed :: "state \<Rightarrow> bool" where
  "well_formed s \<longleftrightarrow> (\<forall>x. chan_ok s x \<and> fire_ok s x)"

text \<open>Every forward edge has its back-reference, on an initialised target.\<close>

definition edges_ok :: "state \<Rightarrow> bool" where
  "edges_ok s \<longleftrightarrow>
     (\<forall>x. \<forall>f \<in> set (keys (forwards (heap s x))).
        initOnce (heap s f) = Done \<and> x \<in> set (keys (backwards (heap s f))))"

text \<open>
  The states one goroutine reaches from zero-valued barriers (hooks set beforehand) by
  calls that return.
\<close>

inductive reachable :: "state \<Rightarrow> bool" where
  start: "reachable (init_state hk)"
| fall: "reachable s \<Longrightarrow> Fall n b s = Some (Returned u s') \<Longrightarrow> reachable s'"
| forward: "reachable s \<Longrightarrow> Forward n b f s = Some (Returned u s') \<Longrightarrow> reachable s'"
| barrier: "reachable s \<Longrightarrow> Barrier b s = Returned h s' \<Longrightarrow> reachable s'"

text \<open>
  \<open>later s s'\<close>: the state \<open>s'\<close> is what any sequence of calls of the package,
  started in \<open>s\<close>, leaves behind, whatever their outcomes.
\<close>

inductive later :: "state \<Rightarrow> state \<Rightarrow> bool" where
  now: "later s s"
| fall: "later s t \<Longrightarrow> Fall n b t = Some r \<Longrightarrow> later s (final r)"
| forward: "later s t \<Longrightarrow> Forward n b f t = Some r \<Longrightarrow> later s (final r)"
| barrier: "later s t \<Longrightarrow> later s (final (Barrier b t))"

text \<open>
  No \<^verbatim>\<open>fallOnce\<close> function is executing: the state between the calls of one goroutine.
\<close>

definition quiet :: "state \<Rightarrow> bool" where
  "quiet s \<longleftrightarrow> (\<forall>x. fallOnce (heap s x) \<noteq> Running)"

definition no_new_running :: "state \<Rightarrow> state \<Rightarrow> bool" where
  "no_new_running s s' \<longleftrightarrow>
     (\<forall>x. fallOnce (heap s' x) = Running \<longrightarrow> fallOnce (heap s x) = Running)"

text \<open>
  Between the calls of one goroutine no mutex is held, no \<^verbatim>\<open>initOnce\<close> function is
  executing, and an initialised barrier has a channel. \<open>calm\<close> is what a call that
  returns keeps of this.
\<close>

definition idle :: "state \<Rightarrow> bool" where
  "idle s \<longleftrightarrow>
     (\<forall>x. \<not> m (heap s x) \<and> initOnce (heap s x) \<noteq> Running \<and>
          (initOnce (heap s x) = Done \<longrightarrow> channel (heap s x) \<noteq> None))"

definition calm :: "state \<Rightarrow> state \<Rightarrow> bool" where
  "calm s s' \<longleftrightarrow>
     (\<forall>x. (m (heap s' x) \<longrightarrow> m (heap s x)) \<and>
          (initOnce (heap s' x) = Running \<longrightarrow> initOnce (heap s x) = Running) \<and>
          (initOnce (heap s' x) = Done \<and> channel (heap s' x) = None \<longrightarrow>
             initOnce (heap s x) = Done \<and> channel (heap s x) = None))"

text \<open>
  The barriers whose fall would still propagate: \<^verbatim>\<open>fallOnce\<close> is fresh and the forward
  set is not empty. A call of \<^verbatim>\<open>Fall\<close> goes one level deeper only into such a
  barrier, and entering it takes it out of this set for good.
\<close>

definition waiting :: "state \<Rightarrow> addr set" where
  "waiting s = {x. fallOnce (heap s x) = Fresh \<and> keys (forwards (heap s x)) \<noteq> []}"

section \<open>Basic facts\<close>

subsection \<open>The depth bound\<close>

text \<open>
  An outcome computed within a bound on the call depth is the outcome for every larger
  bound: \<open>None\<close> is the only answer that depends on the bound.
\<close>

lemma range_forwards_mono:
  assumes "\<And>f s r. call f s = Some r \<Longrightarrow> call' f s = Some r"
  shows "range_forwards call b ks s = Some r \<Longrightarrow> range_forwards call' b ks s = Some r"
proof (induction ks arbitrary: s)
  case Nil
  then show ?case by simp
next
  case (Cons f fs)
  show ?case
  proof (cases "f \<in> set (keys (forwards (heap s b)))")
    case False
    with Cons show ?thesis by simp
  next
    case True
    with Cons.prems obtain r1 where c: "call f s = Some r1"
      by (cases "call f s") simp_all
    then have c': "call' f s = Some r1" by (rule assms)
    show ?thesis
    proof (cases r1)
      case (Returned u1 s1)
      with True c Cons.prems have "range_forwards call b fs s1 = Some r" by simp
      then have "range_forwards call' b fs s1 = Some r" by (rule Cons.IH)
      with True c' Returned show ?thesis by simp
    next
      case (Blocked s1)
      with True c Cons.prems have "r = Blocked s1" by simp
      with True c' Blocked show ?thesis by simp
    next
      case (Panicked s1)
      with True c Cons.prems have "r = Panicked s1" by simp
      with True c' Panicked show ?thesis by simp
    qed
  qed
qed

lemma Fall_Suc: "Fall n b s = Some r \<Longrightarrow> Fall (Suc n) b s = Some r"
proof (induction n arbitrary: b s r)
  case 0
  then show ?case by simp
next
  case (Suc n)
  have m: "range_forwards (Fall (Suc n)) b ks t = Some q"
    if "range_forwards (Fall n) b ks t = Some q" for b ks t q
    using that by (rule range_forwards_mono[rotated]) (rule Suc.IH)
  show ?case
  proof (cases "init b s")
    case (Returned u0 s0)
    show ?thesis
    proof (cases "fallOnce (heap s0 b)")
      case Fresh
      show ?thesis
      proof (cases "fire b (upd b (\<lambda>x. x\<lparr>fallOnce := Running\<rparr>) s0)")
        case R1: (Returned u1 s1)
        from Suc.prems Returned Fresh R1
        obtain q where q: "range_forwards (Fall n) b (keys (forwards (heap s1 b))) s1 = Some q"
          by (cases "range_forwards (Fall n) b (keys (forwards (heap s1 b))) s1") simp_all
        have "Fall (Suc (Suc n)) b s =
              (case Some q of
                 Some (Returned _ s2) \<Rightarrow>
                   (let s3 = upd b (\<lambda>x. x\<lparr>forwards := None\<rparr>) s2 in
                    case range_backwards b (keys (backwards (heap s3 b))) s3 of
                      Returned _ s4 \<Rightarrow> Some (Returned () (upd b (\<lambda>x. x\<lparr>fallOnce := Done\<rparr>) s4))
                    | Blocked s4 \<Rightarrow> Some (Blocked s4)
                    | Panicked s4 \<Rightarrow> Some (Panicked s4))
               | r \<Rightarrow> r)"
          using Returned Fresh R1 m[OF q] by (simp del: Fall.simps add: Fall.simps(2)[of "Suc n"])
        also have "\<dots> = Fall (Suc n) b s"
          using Returned Fresh R1 q by (simp del: Fall.simps add: Fall.simps(2)[of n])
        finally show ?thesis using Suc.prems by simp
      next
        case (Blocked s1)
        with Suc.prems Returned Fresh have "r = Blocked s1" by simp
        with Blocked Returned Fresh show ?thesis by simp
      next
        case (Panicked s1)
        with Suc.prems Returned Fresh have "r = Panicked s1" by simp
        with Panicked Returned Fresh show ?thesis by simp
      qed
    next
      case Running
      with Suc.prems Returned have "r = Blocked s0" by simp
      with Running Returned show ?thesis by simp
    next
      case Done
      with Suc.prems Returned have "r = Returned () s0" by simp
      with Done Returned show ?thesis by simp
    qed
  next
    case (Blocked s0)
    with Suc.prems have "r = Blocked s0" by simp
    with Blocked show ?thesis by simp
  next
    case (Panicked s0)
    with Suc.prems have "r = Panicked s0" by simp
    with Panicked show ?thesis by simp
  qed
qed

lemma Fall_fuel_mono:
  assumes "Fall n b s = Some r" and "n \<le> n'"
  shows "Fall n' b s = Some r"
  using assms(2,1)
proof (induction n' rule: dec_induct)
  case base
  then show ?case .
next
  case (step j)
  from step.IH[OF step.prems] show ?case by (rule Fall_Suc)
qed

subsection \<open>Steps of the operations\<close>

lemma evolves_refl: "evolves s s"
  by (simp add: evolves_def)

lemma evolves_trans:
  assumes "evolves s t" and "evolves t u"
  shows "evolves s u"
proof -
  from assms obtain e1 e2 where "trace t = trace s @ e1" and "trace u = trace t @ e2"
    unfolding evolves_def by blast
  then have tr: "\<exists>evs. trace u = trace s @ evs" by simp
  have i: "initOnce (heap u x) = initOnce (heap s x) \<and> channel (heap u x) = channel (heap s x)"
    if "initOnce (heap s x) \<noteq> Fresh" for x
    using assms that unfolding evolves_def by metis
  have h: "FallHook (heap u x) = FallHook (heap s x)" for x
    using assms unfolding evolves_def by simp
  have n: "next_chan s \<le> next_chan u"
    using assms unfolding evolves_def by simp
  have c: "closed u c" if "c < next_chan s" and "closed s c" for c
  proof -
    from assms that have "closed t c" and "c < next_chan t" unfolding evolves_def by auto
    with assms(2) show ?thesis unfolding evolves_def by blast
  qed
  have f: "fallOnce (heap u x) \<noteq> Fresh \<and> hook_count u x = hook_count s x \<and>
        close_count u x = close_count s x" if "fallOnce (heap s x) \<noteq> Fresh" for x
  proof -
    from assms(1) that have "fallOnce (heap t x) \<noteq> Fresh \<and> hook_count t x = hook_count s x \<and>
        close_count t x = close_count s x" unfolding evolves_def by blast
    with assms(2) show ?thesis unfolding evolves_def by metis
  qed
  have d: "fallOnce (heap u x) = Done" if "fallOnce (heap s x) = Done" for x
    using assms that unfolding evolves_def by blast
  from tr i h n c f d show ?thesis unfolding evolves_def by blast
qed

lemma evolves_init: "evolves s (final (init b s))"
  by (auto simp: evolves_def init_def lock_def unlock_def make_chan_def upd_def Let_def
      hook_count_def close_count_def split: once.splits)

lemma evolves_lock: "evolves s (final (lock b s))"
  by (auto simp: evolves_def lock_def upd_def hook_count_def close_count_def)

lemma evolves_fire:
  "fallOnce (heap s b) = Fresh \<Longrightarrow>
   evolves s (final (fire b (upd b (\<lambda>x. x\<lparr>fallOnce := Running\<rparr>) s)))"
  by (auto simp: evolves_def fire_def lock_def unlock_def close_chan_def call_hook_def upd_def
      hook_count_def close_count_def split: option.splits)

lemma evolves_range_forwards:
  assumes "\<And>f s r. call f s = Some r \<Longrightarrow> evolves s (final r)"
  shows "range_forwards call b ks s = Some r \<Longrightarrow> evolves s (final r)"
proof (induction ks arbitrary: s)
  case Nil
  then show ?case by (auto simp: evolves_refl)
next
  case (Cons f fs)
  show ?case
  proof (cases "f \<in> set (keys (forwards (heap s b)))")
    case False
    with Cons show ?thesis by simp
  next
    case True
    show ?thesis
    proof (cases "call f s")
      case None
      with True Cons.prems show ?thesis by simp
    next
      case (Some r1)
      then have e1: "evolves s (final r1)" by (rule assms)
      show ?thesis
      proof (cases r1)
        case (Returned u s1)
        with True Some Cons.prems have "range_forwards call b fs s1 = Some r" by simp
        then have "evolves s1 (final r)" by (rule Cons.IH)
        with e1 Returned show ?thesis by (auto intro: evolves_trans)
      next
        case (Blocked s1)
        with True Some Cons.prems e1 show ?thesis by auto
      next
        case (Panicked s1)
        with True Some Cons.prems e1 show ?thesis by auto
      qed
    qed
  qed
qed

lemma evolves_range_backwards: "evolves s (final (range_backwards b ps s))"
proof (induction ps arbitrary: s)
  case Nil
  then show ?case by (simp add: evolves_refl)
next
  case (Cons p ps)
  show ?case
  proof (cases "m (heap s p)")
    case True
    then show ?thesis by (simp add: lock_def evolves_refl)
  next
    case False
    let ?s1 = "unlock p (upd p (\<lambda>x. x\<lparr>forwards := map_delete b (forwards x)\<rparr>) (upd p (\<lambda>x. x\<lparr>m := True\<rparr>) s))"
    have "evolves s ?s1"
      by (auto simp: evolves_def unlock_def upd_def hook_count_def close_count_def)
    moreover have "evolves ?s1 (final (range_backwards b ps ?s1))" by (rule Cons.IH)
    ultimately show ?thesis using False by (simp add: lock_def evolves_trans)
  qed
qed

lemma evolves_set_forwards: "evolves s (upd b (\<lambda>x. x\<lparr>forwards := v\<rparr>) s)"
  by (auto simp: evolves_def upd_def hook_count_def close_count_def)

lemma evolves_set_done: "evolves s (upd b (\<lambda>x. x\<lparr>fallOnce := Done\<rparr>) s)"
  by (auto simp: evolves_def upd_def hook_count_def close_count_def)

lemma evolves_Fall: "Fall n b s = Some r \<Longrightarrow> evolves s (final r)"
proof (induction n arbitrary: b s r)
  case 0
  then show ?case by simp
next
  case (Suc n)
  have e0: "evolves s (final (init b s))" by (rule evolves_init)
  show ?case
  proof (cases "init b s")
    case (Blocked s0)
    with Suc.prems have "r = Blocked s0" by simp
    with e0 Blocked show ?thesis by simp
  next
    case (Panicked s0)
    with Suc.prems have "r = Panicked s0" by simp
    with e0 Panicked show ?thesis by simp
  next
    case (Returned u s0)
    with e0 have e0': "evolves s s0" by simp
    show ?thesis
    proof (cases "fallOnce (heap s0 b)")
      case Done
      with Returned Suc.prems have "r = Returned () s0" by simp
      with e0' show ?thesis by simp
    next
      case Running
      with Returned Suc.prems have "r = Blocked s0" by simp
      with e0' show ?thesis by simp
    next
      case Fresh
      let ?f = "fire b (upd b (\<lambda>x. x\<lparr>fallOnce := Running\<rparr>) s0)"
      have "evolves s0 (final ?f)" using Fresh by (rule evolves_fire)
      with e0' have e1: "evolves s (final ?f)" by (rule evolves_trans)
      show ?thesis
      proof (cases ?f)
        case (Blocked s1)
        with Returned Fresh Suc.prems have "r = Blocked s1" by simp
        with e1 Blocked show ?thesis by simp
      next
        case (Panicked s1)
        with Returned Fresh Suc.prems have "r = Panicked s1" by simp
        with e1 Panicked show ?thesis by simp
      next
        case R1: (Returned u1 s1)
        with e1 have e01: "evolves s s1" by simp
        let ?l = "range_forwards (Fall n) b (keys (forwards (heap s1 b))) s1"
        show ?thesis
        proof (cases ?l)
          case None
          with Returned Fresh R1 Suc.prems show ?thesis by simp
        next
          case (Some r2)
          then have "evolves s1 (final r2)"
            by (rule evolves_range_forwards[rotated]) (rule Suc.IH)
          with e01 have e2: "evolves s (final r2)" by (rule evolves_trans)
          show ?thesis
          proof (cases r2)
            case (Blocked s2)
            with Returned Fresh R1 Some Suc.prems have "r = Blocked s2" by simp
            with e2 Blocked show ?thesis by simp
          next
            case (Panicked s2)
            with Returned Fresh R1 Some Suc.prems have "r = Panicked s2" by simp
            with e2 Panicked show ?thesis by simp
          next
            case R2: (Returned u2 s2)
            let ?s3 = "upd b (\<lambda>x. x\<lparr>forwards := None\<rparr>) s2"
            let ?rb = "range_backwards b (keys (backwards (heap ?s3 b))) ?s3"
            have e3: "evolves s ?s3"
              using e2 R2 evolves_set_forwards[of s2 b None] by (auto intro: evolves_trans)
            have e4: "evolves s (final ?rb)"
              using e3 evolves_range_backwards by (rule evolves_trans)
            show ?thesis
            proof (cases ?rb)
              case (Blocked s4)
              with Returned Fresh R1 Some R2 Suc.prems have "r = Blocked s4"
                by (simp add: Let_def)
              with e4 Blocked show ?thesis by simp
            next
              case (Panicked s4)
              with Returned Fresh R1 Some R2 Suc.prems have "r = Panicked s4"
                by (simp add: Let_def)
              with e4 Panicked show ?thesis by simp
            next
              case R4: (Returned u4 s4)
              with Returned Fresh R1 Some R2 Suc.prems
              have "r = Returned () (upd b (\<lambda>x. x\<lparr>fallOnce := Done\<rparr>) s4)"
                by (simp add: Let_def)
              moreover from e4 R4 have "evolves s s4" by simp
              then have "evolves s (upd b (\<lambda>x. x\<lparr>fallOnce := Done\<rparr>) s4)"
                using evolves_set_done by (rule evolves_trans)
              ultimately show ?thesis by simp
            qed
          qed
        qed
      qed
    qed
  qed
qed

lemma fallen_iff: "fallen s b \<longleftrightarrow> (\<exists>c. channel (heap s b) = Some c \<and> closed s c)"
  by (simp add: fallen_def split: option.splits)

lemma chan_ok_cong:
  "(\<And>y. channel (heap s' y) = channel (heap s y)) \<Longrightarrow> next_chan s' = next_chan s \<Longrightarrow>
   initOnce (heap s' x) = initOnce (heap s x) \<Longrightarrow> chan_ok s' x = chan_ok s x"
  by (simp add: chan_ok_def)

lemma fire_ok_cong:
  "fallOnce (heap s' x) = fallOnce (heap s x) \<Longrightarrow> channel (heap s' x) = channel (heap s x) \<Longrightarrow>
   closed s' = closed s \<Longrightarrow> trace s' = trace s \<Longrightarrow>
   FallHook (heap s' x) = FallHook (heap s x) \<Longrightarrow>
   forwards (heap s' x) = forwards (heap s x) \<Longrightarrow> fire_ok s' x = fire_ok s x"
  by (simp add: fire_ok_def fallen_iff hook_count_def close_count_def)

lemma wf_m [simp]: "well_formed (upd b (\<lambda>x. x\<lparr>m := v\<rparr>) s) = well_formed s"
proof -
  have "chan_ok (upd b (\<lambda>x. x\<lparr>m := v\<rparr>) s) x = chan_ok s x" for x
    by (rule chan_ok_cong) (simp_all add: upd_def)
  moreover have "fire_ok (upd b (\<lambda>x. x\<lparr>m := v\<rparr>) s) x = fire_ok s x" for x
    by (rule fire_ok_cong) (simp_all add: upd_def)
  ultimately show ?thesis by (simp add: well_formed_def)
qed

lemma wf_backwards [simp]: "well_formed (upd b (\<lambda>x. x\<lparr>backwards := v\<rparr>) s) = well_formed s"
proof -
  have "chan_ok (upd b (\<lambda>x. x\<lparr>backwards := v\<rparr>) s) x = chan_ok s x" for x
    by (rule chan_ok_cong) (simp_all add: upd_def)
  moreover have "fire_ok (upd b (\<lambda>x. x\<lparr>backwards := v\<rparr>) s) x = fire_ok s x" for x
    by (rule fire_ok_cong) (simp_all add: upd_def)
  ultimately show ?thesis by (simp add: well_formed_def)
qed

lemma wf_forwards:
  assumes "well_formed s" and "fallOnce (heap s b) = Done \<Longrightarrow> v = None"
  shows "well_formed (upd b (\<lambda>x. x\<lparr>forwards := v\<rparr>) s)"
proof -
  let ?s = "upd b (\<lambda>x. x\<lparr>forwards := v\<rparr>) s"
  have "chan_ok ?s x = chan_ok s x" for x
    by (rule chan_ok_cong) (simp_all add: upd_def)
  moreover have "fire_ok ?s x = fire_ok s x" if "x \<noteq> b" for x
    using that by (intro fire_ok_cong) (simp_all add: upd_def)
  moreover have "fire_ok ?s b"
  proof -
    from assms(1) have "fire_ok s b" by (simp add: well_formed_def)
    with assms(2-) show ?thesis
      by (simp add: fire_ok_def fallen_iff hook_count_def close_count_def upd_def)
  qed
  ultimately show ?thesis using assms(1) unfolding well_formed_def by metis
qed

lemma wf_done:
  assumes "well_formed s" and "fallOnce (heap s b) \<noteq> Fresh" and "forwards (heap s b) = None"
  shows "well_formed (upd b (\<lambda>x. x\<lparr>fallOnce := Done\<rparr>) s)"
proof -
  let ?s = "upd b (\<lambda>x. x\<lparr>fallOnce := Done\<rparr>) s"
  have "chan_ok ?s x = chan_ok s x" for x
    by (rule chan_ok_cong) (simp_all add: upd_def)
  moreover have "fire_ok ?s x = fire_ok s x" if "x \<noteq> b" for x
    using that by (intro fire_ok_cong) (simp_all add: upd_def)
  moreover have "fire_ok ?s b"
  proof -
    from assms(1) have "fire_ok s b" by (simp add: well_formed_def)
    with assms(2-) show ?thesis
      by (simp add: fire_ok_def fallen_iff hook_count_def close_count_def upd_def)
  qed
  ultimately show ?thesis using assms(1) unfolding well_formed_def by metis
qed

lemma wf_init:
  assumes "well_formed s" and "init b s = Returned u s0"
  shows "well_formed s0"
proof (cases "initOnce (heap s b)")
  case Done
  with assms show ?thesis by (simp add: init_def)
next
  case Running
  with assms show ?thesis by (simp add: init_def)
next
  case Fresh
  from assms(1) have C: "chan_ok s x" and F: "fire_ok s x" for x by (simp_all add: well_formed_def)
  from C[of b] Fresh have nb: "channel (heap s b) = None"
    by (cases "channel (heap s b)") (simp_all add: chan_ok_def)
  from assms(2) Fresh have "\<not> m (heap s b)"
    by (simp add: init_def lock_def unlock_def make_chan_def upd_def Let_def split: if_splits)
  with assms(2) Fresh have s0: "s0 = s\<lparr>closed := (closed s)(next_chan s := False),
              next_chan := Suc (next_chan s),
              heap := (heap s)(b := heap s b\<lparr>channel := Some (next_chan s), forwards := Some [],
                      backwards := Some [], m := False, initOnce := Done\<rparr>)\<rparr>"
    by (simp add: init_def lock_def unlock_def make_chan_def upd_def Let_def)
  have fresh: "channel (heap s y) \<noteq> Some (next_chan s)" for y
    using C[of y] unfolding chan_ok_def by blast
  have ch: "channel (heap s0 y) = (if y = b then Some (next_chan s) else channel (heap s y))"
    and io: "initOnce (heap s0 y) = (if y = b then Done else initOnce (heap s y))"
    and fo: "fallOnce (heap s0 y) = fallOnce (heap s y)"
    and fh: "FallHook (heap s0 y) = FallHook (heap s y)"
    and fw: "forwards (heap s0 y) = (if y = b then Some [] else forwards (heap s y))"
    and nc: "next_chan s0 = Suc (next_chan s)"
    and cl: "closed s0 = (closed s)(next_chan s := False)"
    and tr: "trace s0 = trace s" for y
    by (simp_all add: s0)
  show ?thesis unfolding well_formed_def
  proof (intro allI conjI)
    fix x
    show "chan_ok s0 x"
      unfolding chan_ok_def
    proof (intro allI impI)
      fix c
      assume a: "channel (heap s0 x) = Some c"
      show "c < next_chan s0 \<and> initOnce (heap s0 x) \<noteq> Fresh \<and>
            (\<forall>y. channel (heap s0 y) = Some c \<longrightarrow> y = x)"
      proof (cases "x = b")
        case True
        with a have c: "c = next_chan s" by (simp add: ch)
        have "y = b" if "channel (heap s0 y) = Some c" for y
          using that fresh[of y] c by (cases "y = b") (simp_all add: ch)
        with True c show ?thesis by (simp add: nc io)
      next
        case False
        with a have cx: "channel (heap s x) = Some c" by (simp add: ch)
        with C[of x] have c: "c < next_chan s" and i: "initOnce (heap s x) \<noteq> Fresh"
          and inj: "\<And>y. channel (heap s y) = Some c \<Longrightarrow> y = x"
          unfolding chan_ok_def by blast+
        have "y = x" if "channel (heap s0 y) = Some c" for y
          using that c inj[of y] by (cases "y = b") (simp_all add: ch)
        with False c i show ?thesis by (simp add: nc io)
      qed
    qed
    have fb: "fallOnce (heap s b) = Fresh"
      using F[of b] nb by (simp add: fire_ok_def fallen_iff)
    have fal: "fallen s0 y = (y \<noteq> b \<and> fallen s y)" for y
      using fresh[of y] by (cases "y = b") (auto simp: fallen_iff ch cl)
    show "fire_ok s0 x"
      using F[of x] fb
      by (cases "x = b") (simp_all add: fire_ok_def fal hook_count_def close_count_def fo fh fw tr)
  qed
qed

lemma lock_Returned: "lock b s = Returned u s1 \<longleftrightarrow> \<not> m (heap s b) \<and> s1 = upd b (\<lambda>x. x\<lparr>m := True\<rparr>) s"
  by (auto simp: lock_def)

lemma call_hook_simps [simp]:
  "heap (call_hook b s) = heap s"
  "closed (call_hook b s) = closed s"
  "next_chan (call_hook b s) = next_chan s"
  "trace (call_hook b s) = trace s @ (if FallHook (heap s b) then [HookCalled b] else [])"
  by (simp_all add: call_hook_def)

lemma close_chan_Returned:
  "close_chan b s = Returned u s' \<longleftrightarrow>
     (\<exists>c. channel (heap s b) = Some c \<and> \<not> closed s c \<and>
          s' = s\<lparr>closed := (closed s)(c := True), trace := trace s @ [ChanClosed b]\<rparr>)"
  by (cases "channel (heap s b)") (auto simp: close_chan_def)

lemma fire_Returned:
  assumes "fire b s = Returned u s1"
  obtains c where "\<not> m (heap s b)" and "channel (heap s b) = Some c" and "\<not> closed s c"
    and "heap s1 = (heap s)(b := heap s b\<lparr>m := False\<rparr>)"
    and "closed s1 = (closed s)(c := True)"
    and "next_chan s1 = next_chan s"
    and "trace s1 = trace s @ (if FallHook (heap s b) then [HookCalled b] else []) @ [ChanClosed b]"
proof -
  from assms obtain u1 t1 u2 t2 where l: "lock b s = Returned u1 t1"
    and cc: "close_chan b (call_hook b t1) = Returned u2 t2" and s1: "s1 = unlock b t2"
    by (auto simp: fire_def split: result.splits)
  from l have nm: "\<not> m (heap s b)" and t1: "t1 = upd b (\<lambda>x. x\<lparr>m := True\<rparr>) s"
    by (simp_all add: lock_Returned)
  from cc obtain c where c: "channel (heap (call_hook b t1) b) = Some c"
    and nc: "\<not> closed (call_hook b t1) c"
    and t2: "t2 = (call_hook b t1)\<lparr>closed := (closed (call_hook b t1))(c := True),
                  trace := trace (call_hook b t1) @ [ChanClosed b]\<rparr>"
    unfolding close_chan_Returned by blast
  show ?thesis
  proof (rule that[of c])
    show "\<not> m (heap s b)" by (rule nm)
    from c show "channel (heap s b) = Some c" by (simp add: t1 upd_def)
    from nc show "\<not> closed s c" by (simp add: t1 upd_def)
    show "heap s1 = (heap s)(b := heap s b\<lparr>m := False\<rparr>)"
      by (simp add: s1 t2 t1 unlock_def upd_def)
    show "closed s1 = (closed s)(c := True)" by (simp add: s1 t2 t1 unlock_def upd_def)
    show "next_chan s1 = next_chan s" by (simp add: s1 t2 t1 unlock_def upd_def)
    show "trace s1 = trace s @ (if FallHook (heap s b) then [HookCalled b] else []) @ [ChanClosed b]"
      by (simp add: s1 t2 t1 unlock_def upd_def)
  qed
qed

lemma wf_fire:
  assumes W: "well_formed s0" and fr: "fallOnce (heap s0 b) = Fresh"
    and f: "fire b (upd b (\<lambda>x. x\<lparr>fallOnce := Running\<rparr>) s0) = Returned u s1"
  shows "well_formed s1"
proof -
  from W have C: "chan_ok s0 x" and F: "fire_ok s0 x" for x by (simp_all add: well_formed_def)
  from f obtain c where c: "channel (heap s0 b) = Some c" and nc: "\<not> closed s0 c"
    and s1: "heap s1 = (heap s0)(b := heap s0 b\<lparr>fallOnce := Running, m := False\<rparr>)"
      "closed s1 = (closed s0)(c := True)" "next_chan s1 = next_chan s0"
      "trace s1 = trace s0 @ (if FallHook (heap s0 b) then [HookCalled b] else []) @ [ChanClosed b]"
    by (rule fire_Returned) (simp add: upd_def)
  have ch: "channel (heap s1 y) = channel (heap s0 y)"
    and io: "initOnce (heap s1 y) = initOnce (heap s0 y)"
    and fo: "fallOnce (heap s1 y) = (if y = b then Running else fallOnce (heap s0 y))"
    and fh: "FallHook (heap s1 y) = FallHook (heap s0 y)"
    and fw: "forwards (heap s1 y) = forwards (heap s0 y)"
    and nx: "next_chan s1 = next_chan s0"
    and cl: "closed s1 = (closed s0)(c := True)"
    and tr: "trace s1 = trace s0 @ (if FallHook (heap s0 b) then [HookCalled b] else []) @ [ChanClosed b]" for y
    by (simp_all add: s1)
  have inj: "y = b" if "channel (heap s0 y) = Some c" for y
    using C[of b] c that unfolding chan_ok_def by blast
  have fal: "fallen s1 y = (y = b \<or> fallen s0 y)" for y
    using inj[of y] c by (cases "y = b") (auto simp: fallen_iff ch cl)
  show ?thesis unfolding well_formed_def
  proof (intro allI conjI)
    fix x
    have "chan_ok s1 x = chan_ok s0 x" by (rule chan_ok_cong) (simp_all add: ch nx io)
    with C show "chan_ok s1 x" by simp
    show "fire_ok s1 x"
    proof (cases "x = b")
      case True
      with F[of b] fr show ?thesis
        by (simp add: fire_ok_def fal hook_count_def close_count_def fo fh fw tr)
    next
      case False
      with F[of x] show ?thesis
        by (simp add: fire_ok_def fal hook_count_def close_count_def fo fh fw tr)
    qed
  qed
qed

lemma range_forwards_Returned_induct:
  assumes call: "\<And>f s u s'. P s \<Longrightarrow> call f s = Some (Returned u s') \<Longrightarrow> P s'"
  shows "P s \<Longrightarrow> range_forwards call b ks s = Some (Returned u s') \<Longrightarrow> P s'"
proof (induction ks arbitrary: s)
  case Nil
  then show ?case by simp
next
  case (Cons f fs)
  show ?case
  proof (cases "f \<in> set (keys (forwards (heap s b)))")
    case False
    with Cons show ?thesis by simp
  next
    case True
    with Cons.prems(2) obtain u1 s1 where c1: "call f s = Some (Returned u1 s1)"
      and r: "range_forwards call b fs s1 = Some (Returned u s')"
      by (auto split: option.splits result.splits)
    from Cons.prems(1) c1 have "P s1" by (rule call)
    then show ?thesis using r by (rule Cons.IH)
  qed
qed

lemma range_backwards_Returned:
  "range_backwards b ps s = Returned u s' \<Longrightarrow>
   s' = s\<lparr>heap := (\<lambda>x. if x \<in> set ps
                        then heap s x\<lparr>forwards := map_delete b (forwards (heap s x))\<rparr>
                        else heap s x)\<rparr>"
proof (induction ps arbitrary: s)
  case Nil
  then show ?case by simp
next
  case (Cons p ps)
  let ?s1 = "unlock p (upd p (\<lambda>x. x\<lparr>forwards := map_delete b (forwards x)\<rparr>) (upd p (\<lambda>x. x\<lparr>m := True\<rparr>) s))"
  from Cons.prems have nm: "\<not> m (heap s p)" and r: "range_backwards b ps ?s1 = Returned u s'"
    by (auto simp: lock_def split: if_splits)
  from nm have s1: "?s1 = s\<lparr>heap := (heap s)(p := heap s p\<lparr>forwards := map_delete b (forwards (heap s p))\<rparr>)\<rparr>"
    by (cases "heap s p") (simp add: unlock_def upd_def)
  have idem: "map_delete b (map_delete b v) = map_delete b v" for v
    by (cases v) simp_all
  from r have "s' = ?s1\<lparr>heap := (\<lambda>x. if x \<in> set ps
                        then heap ?s1 x\<lparr>forwards := map_delete b (forwards (heap ?s1 x))\<rparr>
                        else heap ?s1 x)\<rparr>" by (rule Cons.IH)
  then show ?case unfolding s1 by (auto simp: fun_eq_iff idem intro!: state.equality)
qed

lemma Fall_Returned:
  assumes "Fall n b s = Some (Returned u s')"
  obtains (noop) k s0 where "n = Suc k" and "init b s = Returned () s0"
      and "fallOnce (heap s0 b) = Done" and "s' = s0"
  | (fired) k s0 s1 s2 s4 where "n = Suc k" and "init b s = Returned () s0"
      and "fallOnce (heap s0 b) = Fresh"
      and "fire b (upd b (\<lambda>x. x\<lparr>fallOnce := Running\<rparr>) s0) = Returned () s1"
      and "range_forwards (Fall k) b (keys (forwards (heap s1 b))) s1 = Some (Returned () s2)"
      and "range_backwards b (keys (backwards (heap s2 b))) (upd b (\<lambda>x. x\<lparr>forwards := None\<rparr>) s2)
             = Returned () s4"
      and "s' = upd b (\<lambda>x. x\<lparr>fallOnce := Done\<rparr>) s4"
proof (cases n)
  case 0
  with assms show ?thesis by simp
next
  case (Suc k)
  with assms obtain s0 where i: "init b s = Returned () s0"
    by (cases "init b s") auto
  show ?thesis
  proof (cases "fallOnce (heap s0 b)")
    case Running
    with assms Suc i show ?thesis by simp
  next
    case Done
    with assms Suc i have "s' = s0" by simp
    with Suc i Done show ?thesis by (rule noop)
  next
    case Fresh
    with assms Suc i obtain s1 where f: "fire b (upd b (\<lambda>x. x\<lparr>fallOnce := Running\<rparr>) s0) = Returned () s1"
      by (cases "fire b (upd b (\<lambda>x. x\<lparr>fallOnce := Running\<rparr>) s0)") auto
    with assms Suc i Fresh obtain s2 where
      rf: "range_forwards (Fall k) b (keys (forwards (heap s1 b))) s1 = Some (Returned () s2)"
      by (cases "range_forwards (Fall k) b (keys (forwards (heap s1 b))) s1")
        (auto split: result.splits)
    let ?rb = "range_backwards b (keys (backwards (heap s2 b))) (upd b (\<lambda>x. x\<lparr>forwards := None\<rparr>) s2)"
    from assms Suc i Fresh f rf obtain s4 where rb: "?rb = Returned () s4"
      and s': "s' = upd b (\<lambda>x. x\<lparr>fallOnce := Done\<rparr>) s4"
      by (cases ?rb) (auto simp: Let_def upd_def)
    from Suc i Fresh f rf rb s' show ?thesis by (rule fired)
  qed
qed

lemma range_backwards_fields:
  assumes "range_backwards b ps s = Returned u s'"
  shows "closed s' = closed s" and "trace s' = trace s" and "next_chan s' = next_chan s"
    and "channel (heap s' x) = channel (heap s x)" and "initOnce (heap s' x) = initOnce (heap s x)"
    and "fallOnce (heap s' x) = fallOnce (heap s x)" and "FallHook (heap s' x) = FallHook (heap s x)"
    and "backwards (heap s' x) = backwards (heap s x)" and "m (heap s' x) = m (heap s x)"
    and "forwards (heap s' x) =
           (if x \<in> set ps then map_delete b (forwards (heap s x)) else forwards (heap s x))"
  using range_backwards_Returned[OF assms] by simp_all

lemma wf_range_backwards:
  assumes "well_formed s" and "range_backwards b ps s = Returned u s'"
  shows "well_formed s'"
proof -
  note f = range_backwards_fields[OF assms(2)]
  from assms(1) have C: "chan_ok s x" and F: "fire_ok s x" for x by (simp_all add: well_formed_def)
  have "chan_ok s' x = chan_ok s x" for x by (rule chan_ok_cong) (simp_all add: f)
  moreover have "fire_ok s' x" for x
    using F[of x] by (simp add: fire_ok_def fallen_iff hook_count_def close_count_def f)
  ultimately show ?thesis using C by (simp add: well_formed_def)
qed

lemma init_Returned:
  assumes "init b s = Returned u s0"
  obtains (old) "initOnce (heap s b) = Done" and "s0 = s"
  | (new) "initOnce (heap s b) = Fresh" and "\<not> m (heap s b)"
      and "s0 = s\<lparr>closed := (closed s)(next_chan s := False),
              next_chan := Suc (next_chan s),
              heap := (heap s)(b := heap s b\<lparr>channel := Some (next_chan s), forwards := Some [],
                      backwards := Some [], m := False, initOnce := Done\<rparr>)\<rparr>"
proof (cases "initOnce (heap s b)")
  case Done
  with assms have "s0 = s" by (simp add: init_def)
  with Done show ?thesis by (rule old)
next
  case Running
  with assms show ?thesis by (simp add: init_def)
next
  case Fresh
  from assms Fresh have nm: "\<not> m (heap s b)"
    by (simp add: init_def lock_def unlock_def make_chan_def upd_def Let_def split: if_splits)
  with assms Fresh have "s0 = s\<lparr>closed := (closed s)(next_chan s := False),
              next_chan := Suc (next_chan s),
              heap := (heap s)(b := heap s b\<lparr>channel := Some (next_chan s), forwards := Some [],
                      backwards := Some [], m := False, initOnce := Done\<rparr>)\<rparr>"
    by (simp add: init_def lock_def unlock_def make_chan_def upd_def Let_def)
  with Fresh nm show ?thesis by (rule new)
qed

lemma init_fields:
  assumes "init b s = Returned u s0"
  shows "initOnce (heap s0 b) = Done" and "fallOnce (heap s0 x) = fallOnce (heap s x)"
    and "FallHook (heap s0 x) = FallHook (heap s x)" and "trace s0 = trace s"
    and "m (heap s0 x) = m (heap s x)"
  using assms by (cases rule: init_Returned; simp)+

lemma wf_Fall: "well_formed s \<Longrightarrow> Fall n b s = Some (Returned u s') \<Longrightarrow> well_formed s'"
proof (induction n arbitrary: b s u s')
  case 0
  then show ?case by simp
next
  case (Suc n)
  from Suc.prems(2) show ?case
  proof (cases rule: Fall_Returned)
    case (noop k s0)
    with Suc.prems(1) show ?thesis by (auto dest: wf_init)
  next
    case (fired k s0 s1 s2 s4)
    from Suc.prems(1) fired(2) have w0: "well_formed s0" by (rule wf_init)
    from w0 fired(3,4) have w1: "well_formed s1" by (rule wf_fire)
    from fired(1) have k: "k = n" by simp
    have w2: "well_formed s2"
      using w1 fired(5) unfolding k
      by (rule range_forwards_Returned_induct[where P = well_formed, rotated]) (rule Suc.IH)
    have w3: "well_formed (upd b (\<lambda>x. x\<lparr>forwards := None\<rparr>) s2)"
      using w2 by (rule wf_forwards) simp
    from w3 fired(6) have w4: "well_formed s4" by (rule wf_range_backwards)
    from fired(5) have "evolves s1 s2"
      using evolves_range_forwards[of "Fall k" b "keys (forwards (heap s1 b))" s1, OF evolves_Fall]
      by fastforce
    moreover from fired(4) have "fallOnce (heap s1 b) = Running"
      by (rule fire_Returned) (simp add: upd_def)
    ultimately have "fallOnce (heap s2 b) \<noteq> Fresh" unfolding evolves_def by auto
    then have nf: "fallOnce (heap s4 b) \<noteq> Fresh"
      using range_backwards_fields(6)[OF fired(6), of b] by (simp add: upd_def)
    have fn: "forwards (heap s4 b) = None"
      using range_backwards_fields(10)[OF fired(6), of b] by (simp add: upd_def)
    from w4 nf fn show ?thesis unfolding fired(7) by (rule wf_done)
  qed
qed

subsection \<open>What a fall keeps\<close>

lemma evolves_frame:
  assumes "\<And>x. initOnce (heap s' x) = initOnce (heap s x)"
    and "\<And>x. channel (heap s' x) = channel (heap s x)"
    and "\<And>x. FallHook (heap s' x) = FallHook (heap s x)"
    and "\<And>x. fallOnce (heap s' x) = fallOnce (heap s x)"
    and "closed s' = closed s" and "next_chan s' = next_chan s" and "trace s' = trace s"
  shows "evolves s s'"
  using assms by (simp add: evolves_def hook_count_def close_count_def)

lemma falls_to_refl: "falls_to s s"
  by (simp add: falls_to_def evolves_refl)

lemma falls_to_trans [trans]:
  assumes "falls_to s t" and "falls_to t u"
  shows "falls_to s u"
proof -
  from assms have e: "evolves s t" "evolves t u" by (simp_all add: falls_to_def)
  then have "evolves s u" by (rule evolves_trans)
  moreover have "backwards (heap u x) = backwards (heap s x)" if "initOnce (heap s x) \<noteq> Fresh" for x
  proof -
    from e(1) that have "initOnce (heap t x) \<noteq> Fresh" unfolding evolves_def by metis
    with assms that show ?thesis unfolding falls_to_def by metis
  qed
  moreover have "set (keys (forwards (heap u x))) \<subseteq> set (keys (forwards (heap s x)))" for x
    using assms unfolding falls_to_def by blast
  ultimately show ?thesis by (simp add: falls_to_def)
qed

lemma falls_to_init:
  assumes "init b s = Returned u s0"
  shows "falls_to s s0"
proof -
  have "evolves s s0" using evolves_init[of s b] assms by simp
  moreover have "backwards (heap s0 x) = backwards (heap s x)" if "initOnce (heap s x) \<noteq> Fresh" for x
    using assms that by (cases rule: init_Returned) auto
  moreover have "set (keys (forwards (heap s0 x))) \<subseteq> set (keys (forwards (heap s x)))" for x
    using assms by (cases rule: init_Returned) auto
  ultimately show ?thesis by (simp add: falls_to_def)
qed

lemma falls_to_fire:
  assumes "fallOnce (heap s b) = Fresh"
    and "fire b (upd b (\<lambda>x. x\<lparr>fallOnce := Running\<rparr>) s) = Returned u s1"
  shows "falls_to s s1"
proof -
  have "evolves s s1" using evolves_fire[OF assms(1)] assms(2) by simp
  moreover from assms(2) have "heap s1 = (heap s)(b := heap s b\<lparr>fallOnce := Running, m := False\<rparr>)"
    by (rule fire_Returned) (simp add: upd_def)
  ultimately show ?thesis by (simp add: falls_to_def)
qed

lemma range_forwards_Returned_rel:
  assumes call: "\<And>f s u s'. call f s = Some (Returned u s') \<Longrightarrow> R s s'"
    and refl: "\<And>s. R s s" and trans: "\<And>s t u. R s t \<Longrightarrow> R t u \<Longrightarrow> R s u"
  shows "range_forwards call b ks s = Some (Returned u s') \<Longrightarrow> R s s'"
proof (induction ks arbitrary: s)
  case Nil
  then show ?case by (simp add: refl)
next
  case (Cons f fs)
  show ?case
  proof (cases "f \<in> set (keys (forwards (heap s b)))")
    case False
    with Cons show ?thesis by simp
  next
    case True
    with Cons.prems obtain u1 s1 where c1: "call f s = Some (Returned u1 s1)"
      and r: "range_forwards call b fs s1 = Some (Returned u s')"
      by (auto split: option.splits result.splits)
    from c1 have "R s s1" by (rule call)
    moreover from r have "R s1 s'" by (rule Cons.IH)
    ultimately show ?thesis by (rule trans)
  qed
qed

lemma falls_to_set_forwards_None: "falls_to s (upd b (\<lambda>x. x\<lparr>forwards := None\<rparr>) s)"
  by (simp add: falls_to_def evolves_set_forwards) (simp add: upd_def)

lemma falls_to_set_done: "falls_to s (upd b (\<lambda>x. x\<lparr>fallOnce := Done\<rparr>) s)"
  by (simp add: falls_to_def evolves_set_done) (simp add: upd_def)

lemma falls_to_range_backwards:
  assumes "range_backwards b ps s = Returned u s'"
  shows "falls_to s s'"
proof -
  note f = range_backwards_fields[OF assms]
  have "evolves s s'" using evolves_range_backwards[of s b ps] assms by simp
  moreover have "set (keys (forwards (heap s' x))) \<subseteq> set (keys (forwards (heap s x)))" for x
    by (cases "forwards (heap s x)") (simp_all add: f)
  ultimately show ?thesis by (simp add: falls_to_def f)
qed

lemma falls_to_Fall: "Fall n b s = Some (Returned u s') \<Longrightarrow> falls_to s s'"
proof (induction n arbitrary: b s u s')
  case 0
  then show ?case by simp
next
  case (Suc n)
  from Suc.prems show ?case
  proof (cases rule: Fall_Returned)
    case (noop k s0)
    then show ?thesis by (simp add: falls_to_init)
  next
    case (fired k s0 s1 s2 s4)
    from fired(1) have k: "k = n" by simp
    have "falls_to s s0" using fired(2) by (rule falls_to_init)
    also have "falls_to s0 s1" using fired(3,4) by (rule falls_to_fire)
    also have "falls_to s1 s2"
      using fired(5) unfolding k
      by (rule range_forwards_Returned_rel[where R = falls_to, rotated 3])
        (auto intro: Suc.IH falls_to_refl falls_to_trans)
    also have "falls_to s2 (upd b (\<lambda>x. x\<lparr>forwards := None\<rparr>) s2)"
      by (rule falls_to_set_forwards_None)
    also have "falls_to (upd b (\<lambda>x. x\<lparr>forwards := None\<rparr>) s2) s4"
      using fired(6) by (rule falls_to_range_backwards)
    also have "falls_to s4 s'" unfolding fired(7) by (rule falls_to_set_done)
    finally show ?thesis .
  qed
qed

lemma edges_ok_falls_to:
  assumes "edges_ok s" and "falls_to s s'"
  shows "edges_ok s'"
  unfolding edges_ok_def
proof (intro allI ballI)
  fix x f
  assume "f \<in> set (keys (forwards (heap s' x)))"
  with assms(2) have "f \<in> set (keys (forwards (heap s x)))" unfolding falls_to_def by blast
  with assms(1) have i: "initOnce (heap s f) = Done" and b: "x \<in> set (keys (backwards (heap s f)))"
    unfolding edges_ok_def by blast+
  from assms(2) i have "initOnce (heap s' f) = Done" "backwards (heap s' f) = backwards (heap s f)"
    unfolding falls_to_def evolves_def by auto
  with b show "initOnce (heap s' f) = Done \<and> x \<in> set (keys (backwards (heap s' f)))" by simp
qed

lemma evolves_m: "evolves s (upd b (\<lambda>x. x\<lparr>m := v\<rparr>) s)"
  by (rule evolves_frame) (simp_all add: upd_def)

lemma evolves_set_backwards: "evolves s (upd b (\<lambda>x. x\<lparr>backwards := v\<rparr>) s)"
  by (rule evolves_frame) (simp_all add: upd_def)

lemma evolves_register_backward: "evolves s (final (register_backward b f s))"
proof (cases "init f s")
  case (Blocked s1)
  with evolves_init[of s f] show ?thesis by (simp add: register_backward_def)
next
  case (Panicked s1)
  with evolves_init[of s f] show ?thesis by (simp add: register_backward_def)
next
  case (Returned u s1)
  with evolves_init[of s f] have e1: "evolves s s1" by simp
  show ?thesis
  proof (cases "m (heap s1 f)")
    case True
    with Returned e1 show ?thesis by (simp add: register_backward_def lock_def)
  next
    case False
    let ?s2 = "upd f (\<lambda>x. x\<lparr>m := True\<rparr>) s1"
    have e2: "evolves s ?s2" using e1 evolves_m by (rule evolves_trans)
    show ?thesis
    proof (cases "backwards (heap ?s2 f)")
      case None
      with Returned False e2 show ?thesis by (simp add: register_backward_def lock_def)
    next
      case (Some ks)
      have "evolves s (unlock f (upd f (\<lambda>x. x\<lparr>backwards := Some (map_insert b ks)\<rparr>) ?s2))"
        unfolding unlock_def
        using e2 evolves_set_backwards evolves_m by (blast intro: evolves_trans)
      with Returned False Some show ?thesis by (simp add: register_backward_def lock_def)
    qed
  qed
qed

lemma evolves_forward_locked:
  assumes "forward_locked n b f s = Some r"
  shows "evolves s (final r)"
proof (cases "m (heap s b)")
  case True
  with assms have "r = Blocked s" by (simp add: forward_locked_def lock_def)
  then show ?thesis by (simp add: evolves_refl)
next
  case False
  let ?s1 = "upd b (\<lambda>x. x\<lparr>m := True\<rparr>) s"
  have e1: "evolves s ?s1" by (rule evolves_m)
  show ?thesis
  proof (cases "fallen ?s1 b")
    case True
    with assms False obtain r1 where f: "Fall n f ?s1 = Some r1"
      by (cases "Fall n f ?s1") (simp_all add: forward_locked_def lock_def)
    then have "evolves ?s1 (final r1)" by (rule evolves_Fall)
    with e1 have e2: "evolves s (final r1)" by (rule evolves_trans)
    show ?thesis
    proof (cases r1)
      case (Returned u2 s2)
      with assms False True f have "r = Returned () (unlock b s2)"
        by (simp add: forward_locked_def lock_def)
      moreover from e2 Returned have "evolves s (unlock b s2)"
        unfolding unlock_def using evolves_m by (auto intro: evolves_trans)
      ultimately show ?thesis by simp
    next
      case (Blocked s2)
      with assms False True f have "r = Blocked s2" by (simp add: forward_locked_def lock_def)
      with e2 Blocked show ?thesis by simp
    next
      case (Panicked s2)
      with assms False True f have "r = Panicked s2" by (simp add: forward_locked_def lock_def)
      with e2 Panicked show ?thesis by simp
    qed
  next
    case nf: False
    show ?thesis
    proof (cases "forwards (heap ?s1 b)")
      case None
      with assms False nf have "r = Panicked ?s1" by (simp add: forward_locked_def lock_def)
      with e1 show ?thesis by simp
    next
      case (Some ks)
      with assms False nf
      have "r = Returned () (unlock b (upd b (\<lambda>x. x\<lparr>forwards := Some (map_insert f ks)\<rparr>) ?s1))"
        by (simp add: forward_locked_def lock_def)
      moreover have "evolves s (unlock b (upd b (\<lambda>x. x\<lparr>forwards := Some (map_insert f ks)\<rparr>) ?s1))"
        unfolding unlock_def
        using e1 evolves_set_forwards evolves_m by (blast intro: evolves_trans)
      ultimately show ?thesis by simp
    qed
  qed
qed

lemma evolves_Forward:
  assumes "Forward n b f s = Some r"
  shows "evolves s (final r)"
proof (cases "init b s")
  case (Blocked s0)
  with assms evolves_init[of s b] show ?thesis by (auto simp: Forward_def)
next
  case (Panicked s0)
  with assms evolves_init[of s b] show ?thesis by (auto simp: Forward_def)
next
  case (Returned u0 s0)
  with evolves_init[of s b] have e0: "evolves s s0" by simp
  from assms Returned obtain r1 where fl: "forward_locked n b f s0 = Some r1"
    by (cases "forward_locked n b f s0") (simp_all add: Forward_def)
  then have "evolves s0 (final r1)" by (rule evolves_forward_locked)
  with e0 have e1: "evolves s (final r1)" by (rule evolves_trans)
  show ?thesis
  proof (cases r1)
    case (Returned u1 s1)
    with assms \<open>init b s = Returned u0 s0\<close> fl have "r = register_backward b f s1"
      by (simp add: Forward_def)
    moreover from e1 Returned have "evolves s (final (register_backward b f s1))"
      using evolves_register_backward by (auto intro: evolves_trans)
    ultimately show ?thesis by simp
  next
    case (Blocked s1)
    with assms \<open>init b s = Returned u0 s0\<close> fl have "r = Blocked s1" by (simp add: Forward_def)
    with e1 Blocked show ?thesis by simp
  next
    case (Panicked s1)
    with assms \<open>init b s = Returned u0 s0\<close> fl have "r = Panicked s1" by (simp add: Forward_def)
    with e1 Panicked show ?thesis by simp
  qed
qed

lemma evolves_Barrier: "evolves s (final (Barrier b s))"
  using evolves_init[of s b] by (cases "init b s") (simp_all add: Barrier_def)

lemma later_evolves: "later s s' \<Longrightarrow> evolves s s'"
proof (induction rule: later.induct)
  case (now s)
  show ?case by (rule evolves_refl)
next
  case (fall s t n b r)
  from fall.IH evolves_Fall[OF fall.hyps(2)] show ?case by (rule evolves_trans)
next
  case (forward s t n b f r)
  from forward.IH evolves_Forward[OF forward.hyps(2)] show ?case by (rule evolves_trans)
next
  case (barrier s t b)
  from barrier.IH evolves_Barrier show ?case by (rule evolves_trans)
qed

lemma register_backward_Returned:
  assumes "register_backward b f s = Returned u s'"
  obtains s1 ks where "init f s = Returned () s1" and "\<not> m (heap s1 f)"
    and "backwards (heap s1 f) = Some ks"
    and "s' = unlock f (upd f (\<lambda>x. x\<lparr>backwards := Some (map_insert b ks)\<rparr>)
                 (upd f (\<lambda>x. x\<lparr>m := True\<rparr>) s1))"
proof -
  from assms obtain s1 where i: "init f s = Returned () s1"
    by (cases "init f s") (auto simp: register_backward_def)
  with assms have nm: "\<not> m (heap s1 f)"
    by (auto simp: register_backward_def lock_def split: if_splits)
  with assms i obtain ks where k: "backwards (heap s1 f) = Some ks"
    by (cases "backwards (heap s1 f)") (auto simp: register_backward_def lock_def upd_def)
  with assms i nm have "s' = unlock f (upd f (\<lambda>x. x\<lparr>backwards := Some (map_insert b ks)\<rparr>)
                 (upd f (\<lambda>x. x\<lparr>m := True\<rparr>) s1))"
    by (simp add: register_backward_def lock_def upd_def)
  with i nm k show ?thesis by (rule that)
qed

lemma fallen_m [simp]: "fallen (upd b (\<lambda>x. x\<lparr>m := v\<rparr>) s) y = fallen s y"
  by (simp add: fallen_iff upd_def)

lemma upd_simps:
  "heap (upd b g s) = (heap s)(b := g (heap s b))"
  "closed (upd b g s) = closed s"
  "next_chan (upd b g s) = next_chan s"
  "trace (upd b g s) = trace s"
  by (simp_all add: upd_def)

lemma Forward_Returned:
  assumes "Forward n b f s = Some (Returned u s')"
  obtains (fired) s0 s2 where "init b s = Returned () s0" and "\<not> m (heap s0 b)"
      and "fallen s0 b"
      and "Fall n f (upd b (\<lambda>x. x\<lparr>m := True\<rparr>) s0) = Some (Returned () s2)"
      and "register_backward b f (unlock b s2) = Returned () s'"
  | (stored) s0 ks where "init b s = Returned () s0" and "\<not> m (heap s0 b)"
      and "\<not> fallen s0 b" and "forwards (heap s0 b) = Some ks"
      and "register_backward b f
             (upd b (\<lambda>x. x\<lparr>forwards := Some (map_insert f ks), m := False\<rparr>) s0) = Returned () s'"
proof -
  from assms obtain s0 where i: "init b s = Returned () s0"
    by (cases "init b s") (auto simp: Forward_def)
  with assms obtain s1 where fl: "forward_locked n b f s0 = Some (Returned () s1)"
    and rb: "register_backward b f s1 = Returned () s'"
    by (auto simp: Forward_def split: option.splits result.splits)
  from fl have nm: "\<not> m (heap s0 b)"
    by (auto simp: forward_locked_def lock_def split: if_splits)
  show ?thesis
  proof (cases "fallen s0 b")
    case True
    with fl nm obtain s2 where "Fall n f (upd b (\<lambda>x. x\<lparr>m := True\<rparr>) s0) = Some (Returned () s2)"
      and "s1 = unlock b s2"
      by (auto simp: forward_locked_def lock_def split: option.splits result.splits)
    with i nm True rb show ?thesis by (auto intro: fired)
  next
    case False
    with fl nm obtain ks where k: "forwards (heap s0 b) = Some ks"
      by (cases "forwards (heap s0 b)") (auto simp: forward_locked_def lock_def upd_simps)
    with fl nm False
    have "s1 = unlock b (upd b (\<lambda>x. x\<lparr>forwards := Some (map_insert f ks)\<rparr>)
                 (upd b (\<lambda>x. x\<lparr>m := True\<rparr>) s0))"
      by (simp add: forward_locked_def lock_def upd_simps)
    then have "s1 = upd b (\<lambda>x. x\<lparr>forwards := Some (map_insert f ks), m := False\<rparr>) s0"
      by (simp add: unlock_def upd_def)
    with i nm False k rb show ?thesis by (auto intro: stored)
  qed
qed

lemma wf_register_backward:
  assumes "well_formed s" and "register_backward b f s = Returned u s'"
  shows "well_formed s'"
  using assms(2)
proof (cases rule: register_backward_Returned)
  case (1 s1 ks)
  from assms(1) 1(1) have "well_formed s1" by (rule wf_init)
  then show ?thesis by (simp add: 1(4) unlock_def)
qed

lemma wf_Forward:
  assumes "well_formed s" and "Forward n b f s = Some (Returned u s')"
  shows "well_formed s'"
  using assms(2)
proof (cases rule: Forward_Returned)
  case (fired s0 s2)
  from assms(1) fired(1) have "well_formed s0" by (rule wf_init)
  then have "well_formed (upd b (\<lambda>x. x\<lparr>m := True\<rparr>) s0)" by simp
  then have "well_formed s2" using fired(4) by (rule wf_Fall)
  then have "well_formed (unlock b s2)" by (simp add: unlock_def)
  then show ?thesis using fired(5) by (rule wf_register_backward)
next
  case (stored s0 ks)
  from assms(1) stored(1) have w0: "well_formed s0" by (rule wf_init)
  then have "fire_ok s0 b" by (simp add: well_formed_def)
  with stored(3) have fr: "fallOnce (heap s0 b) = Fresh" unfolding fire_ok_def by blast
  have "upd b (\<lambda>x. x\<lparr>forwards := Some (map_insert f ks), m := False\<rparr>) s0
      = upd b (\<lambda>x. x\<lparr>m := False\<rparr>) (upd b (\<lambda>x. x\<lparr>forwards := Some (map_insert f ks)\<rparr>) s0)"
    by (simp add: upd_def)
  moreover have "well_formed (upd b (\<lambda>x. x\<lparr>forwards := Some (map_insert f ks)\<rparr>) s0)"
    using w0 by (rule wf_forwards) (simp add: fr)
  ultimately have "well_formed (upd b (\<lambda>x. x\<lparr>forwards := Some (map_insert f ks), m := False\<rparr>) s0)"
    by simp
  then show ?thesis using stored(5) by (rule wf_register_backward)
qed

lemma wf_Barrier:
  assumes "well_formed s" and "Barrier b s = Returned h s'"
  shows "well_formed s'"
proof -
  from assms(2) have "init b s = Returned () s'"
    by (cases "init b s") (simp_all add: Barrier_def)
  with assms(1) show ?thesis by (rule wf_init)
qed

lemma wf_init_state: "well_formed (init_state hk)"
  by (simp add: well_formed_def chan_ok_def fire_ok_def fallen_iff hook_count_def close_count_def
      init_state_def zero_barrier_def)

lemma reachable_wf: "reachable s \<Longrightarrow> well_formed s"
  by (induction rule: reachable.induct) (auto intro: wf_init_state wf_Fall wf_Forward wf_Barrier)

lemma set_map_insert [simp]: "set (map_insert k ks) = insert k (set ks)"
  by (auto simp: map_insert_def)

lemma edges_register_backward:
  assumes E: "\<And>x g. g \<in> set (keys (forwards (heap t x))) \<Longrightarrow>
             (x = b \<and> g = f) \<or> (initOnce (heap t g) = Done \<and> x \<in> set (keys (backwards (heap t g))))"
    and rb: "register_backward b f t = Returned u s'"
  shows "edges_ok s'"
  using rb
proof (cases rule: register_backward_Returned)
  case (1 s1 ks)
  have fw: "forwards (heap s' x) = forwards (heap s1 x)"
    and bw: "backwards (heap s' x) = (if x = f then Some (map_insert b ks) else backwards (heap s1 x))"
    and io: "initOnce (heap s' x) = initOnce (heap s1 x)" for x
    by (simp_all add: 1(4) unlock_def upd_def)
  have iof: "initOnce (heap s1 f) = Done" using 1(1) by (rule init_fields)
  show ?thesis unfolding edges_ok_def
  proof (intro allI ballI)
    fix x g
    assume "g \<in> set (keys (forwards (heap s' x)))"
    then have g1: "g \<in> set (keys (forwards (heap s1 x)))" by (simp add: fw)
    from 1(1) show "initOnce (heap s' g) = Done \<and> x \<in> set (keys (backwards (heap s' g)))"
    proof (cases rule: init_Returned)
      case old
      from g1 old(2) have "g \<in> set (keys (forwards (heap t x)))" by simp
      then consider "x = b \<and> g = f"
        | "initOnce (heap t g) = Done \<and> x \<in> set (keys (backwards (heap t g)))"
        using E by blast
      then show ?thesis
      proof cases
        case 1
        with iof show ?thesis by (simp add: io bw)
      next
        case 2
        with old(2) \<open>backwards (heap s1 f) = Some ks\<close> show ?thesis
          by (cases "g = f") (simp_all add: io bw)
      qed
    next
      case new
      have fw1: "forwards (heap s1 y) = (if y = f then Some [] else forwards (heap t y))"
        and bw1: "backwards (heap s1 y) = (if y = f then Some [] else backwards (heap t y))"
        and io1: "initOnce (heap s1 y) = (if y = f then Done else initOnce (heap t y))" for y
        by (simp_all add: new(3))
      from g1 have xf: "x \<noteq> f" and gt: "g \<in> set (keys (forwards (heap t x)))"
        by (cases "x = f"; simp add: fw1)+
      then consider "x = b \<and> g = f"
        | "initOnce (heap t g) = Done \<and> x \<in> set (keys (backwards (heap t g)))"
        using E by blast
      then show ?thesis
      proof cases
        case 1
        with iof show ?thesis by (simp add: io bw)
      next
        case 2
        with new(1) have "g \<noteq> f" by auto
        with 2 show ?thesis by (simp add: io bw io1 bw1)
      qed
    qed
  qed
qed

lemma edges_ok_Forward:
  assumes "edges_ok s" and "Forward n b f s = Some (Returned u s')"
  shows "edges_ok s'"
  using assms(2)
proof (cases rule: Forward_Returned)
  case (fired s0 s2)
  have "falls_to s s0" using fired(1) by (rule falls_to_init)
  also have "falls_to s0 (upd b (\<lambda>x. x\<lparr>m := True\<rparr>) s0)"
    by (simp add: falls_to_def evolves_m) (simp add: upd_def)
  also have "falls_to (upd b (\<lambda>x. x\<lparr>m := True\<rparr>) s0) s2" using fired(4) by (rule falls_to_Fall)
  also have "falls_to s2 (unlock b s2)"
    unfolding unlock_def by (simp add: falls_to_def evolves_m) (simp add: upd_def)
  finally have "falls_to s (unlock b s2)" .
  with assms(1) have "edges_ok (unlock b s2)" by (rule edges_ok_falls_to)
  then have "\<And>x g. g \<in> set (keys (forwards (heap (unlock b s2) x))) \<Longrightarrow>
             (x = b \<and> g = f) \<or> (initOnce (heap (unlock b s2) g) = Done \<and>
               x \<in> set (keys (backwards (heap (unlock b s2) g))))"
    unfolding edges_ok_def by blast
  then show ?thesis using fired(5) by (rule edges_register_backward)
next
  case (stored s0 ks)
  let ?t = "upd b (\<lambda>x. x\<lparr>forwards := Some (map_insert f ks), m := False\<rparr>) s0"
  have "falls_to s s0" using stored(1) by (rule falls_to_init)
  with assms(1) have e0: "edges_ok s0" by (rule edges_ok_falls_to)
  have "(x = b \<and> g = f) \<or> (initOnce (heap ?t g) = Done \<and> x \<in> set (keys (backwards (heap ?t g))))"
    if "g \<in> set (keys (forwards (heap ?t x)))" for x g
  proof (cases "x = b \<and> g = f")
    case True
    then show ?thesis by simp
  next
    case False
    with that stored(4) have "g \<in> set (keys (forwards (heap s0 x)))"
      by (cases "x = b") (auto simp: upd_def)
    with e0 have "initOnce (heap s0 g) = Done \<and> x \<in> set (keys (backwards (heap s0 g)))"
      unfolding edges_ok_def by blast
    then show ?thesis by (auto simp: upd_def)
  qed
  then show ?thesis using stored(5) by (rule edges_register_backward)
qed

lemma edges_ok_Barrier:
  assumes "edges_ok s" and "Barrier b s = Returned h s'"
  shows "edges_ok s'"
proof -
  from assms(2) have "init b s = Returned () s'"
    by (cases "init b s") (simp_all add: Barrier_def)
  then have "falls_to s s'" by (rule falls_to_init)
  with assms(1) show ?thesis by (rule edges_ok_falls_to)
qed

lemma edges_ok_init_state: "edges_ok (init_state hk)"
  by (simp add: edges_ok_def init_state_def zero_barrier_def)

lemma reachable_edges: "reachable s \<Longrightarrow> edges_ok s"
proof (induction rule: reachable.induct)
  case (start hk)
  show ?case by (rule edges_ok_init_state)
next
  case (fall s n b u s')
  from fall.IH falls_to_Fall[OF fall.hyps(2)] show ?case by (rule edges_ok_falls_to)
next
  case (forward s n b f u s')
  from forward.IH forward.hyps(2) show ?case by (rule edges_ok_Forward)
next
  case (barrier s b h s')
  from barrier.IH barrier.hyps(2) show ?case by (rule edges_ok_Barrier)
qed

lemma init_again:
  assumes "init b s = Returned u s0"
  shows "init b s0 = Returned () s0"
  using init_fields(1)[OF assms] by (simp add: init_def)

lemma Fall_after_init:
  assumes "init b s = Returned u s0"
  shows "Fall n b s0 = Fall n b s"
proof (cases n)
  case 0
  then show ?thesis by simp
next
  case (Suc k)
  from assms have "init b s = Returned () s0" by simp
  with init_again[OF assms] Suc show ?thesis by simp
qed

lemma Fall_Returned_done:
  assumes "Fall n b s = Some (Returned u s')"
  shows "fallOnce (heap s' b) = Done" and "initOnce (heap s' b) = Done" and "n \<noteq> 0"
proof -
  from assms show d: "fallOnce (heap s' b) = Done"
    by (cases rule: Fall_Returned) (simp_all add: upd_def)
  from assms show "n \<noteq> 0" by (cases n) simp_all
  from assms obtain s0 where i: "init b s = Returned () s0"
    by (cases rule: Fall_Returned) simp_all
  with assms have "Fall n b s0 = Some (Returned u s')" by (simp add: Fall_after_init)
  then have "evolves s0 s'" using evolves_Fall by fastforce
  with init_fields(1)[OF i] show "initOnce (heap s' b) = Done" unfolding evolves_def by auto
qed

lemma Fall_noop:
  assumes "initOnce (heap s b) = Done" and "fallOnce (heap s b) = Done"
  shows "Fall (Suc k) b s = Some (Returned () s)"
  using assms by (simp add: init_def)

lemma Fall_times_noop:
  assumes "initOnce (heap s b) = Done" and "fallOnce (heap s b) = Done"
  shows "Fall_times N (Suc k) b s = Some (Returned () s)"
  by (induction N) (simp_all add: Fall_noop[OF assms] and_then_def del: Fall.simps)

lemma fallen_evolves:
  assumes "chan_ok s b" and "evolves s s'" and "fallen s b"
  shows "fallen s' b"
proof -
  from assms(3) obtain c where c: "channel (heap s b) = Some c" "closed s c"
    unfolding fallen_iff by blast
  with assms(1) have "c < next_chan s" "initOnce (heap s b) \<noteq> Fresh"
    unfolding chan_ok_def by blast+
  with assms(2) c have "channel (heap s' b) = Some c" "closed s' c"
    unfolding evolves_def by auto
  then show ?thesis unfolding fallen_iff by blast
qed

lemma pending_Fresh:
  assumes "well_formed s" and "\<not> fallen s b"
  shows "fallOnce (heap s b) = Fresh"
  using assms unfolding well_formed_def fire_ok_def by blast

lemma Fall_fired_tail:
  assumes rf: "range_forwards (Fall k) b ks s1 = Some (Returned u2 s2)"
    and rb: "range_backwards b ps (upd b (\<lambda>x. x\<lparr>forwards := None\<rparr>) s2) = Returned u4 s4"
  shows "falls_to s1 (upd b (\<lambda>x. x\<lparr>forwards := None\<rparr>) s2)"
    and "falls_to s1 (upd b (\<lambda>x. x\<lparr>fallOnce := Done\<rparr>) s4)"
proof -
  have "falls_to s1 s2"
    using rf
    by (rule range_forwards_Returned_rel[where R = falls_to, rotated 3])
      (auto intro: falls_to_Fall falls_to_refl falls_to_trans)
  also have "falls_to s2 (upd b (\<lambda>x. x\<lparr>forwards := None\<rparr>) s2)"
    by (rule falls_to_set_forwards_None)
  finally show 3: "falls_to s1 (upd b (\<lambda>x. x\<lparr>forwards := None\<rparr>) s2)" .
  also have "falls_to (upd b (\<lambda>x. x\<lparr>forwards := None\<rparr>) s2) s4"
    using rb by (rule falls_to_range_backwards)
  also have "falls_to s4 (upd b (\<lambda>x. x\<lparr>fallOnce := Done\<rparr>) s4)" by (rule falls_to_set_done)
  finally show "falls_to s1 (upd b (\<lambda>x. x\<lparr>fallOnce := Done\<rparr>) s4)" .
qed

lemma no_new_running_refl: "no_new_running s s"
  by (simp add: no_new_running_def)

lemma no_new_running_trans:
  "no_new_running s t \<Longrightarrow> no_new_running t u \<Longrightarrow> no_new_running s u"
  by (simp add: no_new_running_def)

lemma no_new_running_Fall: "Fall n b s = Some (Returned u s') \<Longrightarrow> no_new_running s s'"
proof (induction n arbitrary: b s u s')
  case 0
  then show ?case by simp
next
  case (Suc n)
  from Suc.prems show ?case
  proof (cases rule: Fall_Returned)
    case (noop k s0)
    with init_fields(2)[OF noop(2)] show ?thesis by (simp add: no_new_running_def)
  next
    case (fired k s0 s1 s2 s4)
    from fired(1) have k: "k = n" by simp
    have 0: "fallOnce (heap s0 x) = fallOnce (heap s x)" for x
      using fired(2) by (rule init_fields)
    have 1: "fallOnce (heap s1 x) = (if x = b then Running else fallOnce (heap s0 x))" for x
      using fired(4) by (rule fire_Returned) (simp add: upd_def)
    have 2: "no_new_running s1 s2"
      using fired(5) unfolding k
      by (rule range_forwards_Returned_rel[where R = no_new_running, rotated 3])
        (auto intro: Suc.IH no_new_running_refl no_new_running_trans)
    have 4: "fallOnce (heap s4 x) = fallOnce (heap s2 x)" for x
      using range_backwards_fields(6)[OF fired(6), of x] by (simp add: upd_def)
    show ?thesis
      unfolding no_new_running_def
    proof (intro allI impI)
      fix x
      assume r: "fallOnce (heap s' x) = Running"
      then have xb: "x \<noteq> b" by (auto simp: fired(7) upd_def)
      with r have "fallOnce (heap s2 x) = Running" by (simp add: fired(7) upd_def 4)
      with 2 have "fallOnce (heap s1 x) = Running" by (simp add: no_new_running_def)
      with xb show "fallOnce (heap s x) = Running" by (simp add: 1 0)
    qed
  qed
qed

lemma quiet_Fall:
  assumes "quiet s" and "Fall n b s = Some (Returned u s')"
  shows "quiet s'"
  using assms(1) no_new_running_Fall[OF assms(2)] unfolding quiet_def no_new_running_def by blast

lemma register_backward_fallOnce:
  assumes "register_backward b f s = Returned u s'"
  shows "fallOnce (heap s' x) = fallOnce (heap s x)"
  using assms
proof (cases rule: register_backward_Returned)
  case (1 s1 ks)
  from init_fields(2)[OF 1(1), of x] show ?thesis by (auto simp: 1(4) unlock_def upd_def)
qed

lemma quiet_Forward:
  assumes "quiet s" and "Forward n b f s = Some (Returned u s')"
  shows "quiet s'"
  using assms(2)
proof (cases rule: Forward_Returned)
  case (fired s0 s2)
  from assms(1) init_fields(2)[OF fired(1)] have "quiet (upd b (\<lambda>x. x\<lparr>m := True\<rparr>) s0)"
    by (simp add: quiet_def upd_def)
  then have "quiet s2" using fired(4) by (rule quiet_Fall)
  then have "quiet (unlock b s2)" by (simp add: quiet_def unlock_def upd_def)
  with register_backward_fallOnce[OF fired(5)] show ?thesis by (simp add: quiet_def)
next
  case (stored s0 ks)
  from assms(1) init_fields(2)[OF stored(1)]
  have "quiet (upd b (\<lambda>x. x\<lparr>forwards := Some (map_insert f ks), m := False\<rparr>) s0)"
    by (simp add: quiet_def upd_def)
  with register_backward_fallOnce[OF stored(5)] show ?thesis by (simp add: quiet_def)
qed

lemma reachable_quiet: "reachable s \<Longrightarrow> quiet s"
proof (induction rule: reachable.induct)
  case (start hk)
  show ?case by (simp add: quiet_def init_state_def zero_barrier_def)
next
  case (fall s n b u s')
  then show ?case by (auto intro: quiet_Fall)
next
  case (forward s n b f u s')
  then show ?case by (auto intro: quiet_Forward)
next
  case (barrier s b h s')
  from barrier.hyps(2) have "init b s = Returned () s'"
    by (cases "init b s") (simp_all add: Barrier_def)
  from barrier.IH init_fields(2)[OF this] show ?case by (simp add: quiet_def)
qed

lemma reachable_fallen_Done:
  assumes "reachable s"
  shows "fallen s b \<longleftrightarrow> fallOnce (heap s b) = Done"
proof -
  from assms have "fire_ok s b" using reachable_wf by (simp add: well_formed_def)
  moreover from assms have "fallOnce (heap s b) \<noteq> Running"
    using reachable_quiet by (simp add: quiet_def)
  ultimately show ?thesis by (cases "fallOnce (heap s b)") (simp_all add: fire_ok_def)
qed

subsection \<open>A fall in a reachable state\<close>

lemma calm_refl: "calm s s"
  by (simp add: calm_def)

lemma calm_trans: "calm s t \<Longrightarrow> calm t u \<Longrightarrow> calm s u"
  unfolding calm_def by blast

lemma calm_init:
  assumes "init b s = Returned u s0"
  shows "calm s s0"
  using assms by (cases rule: init_Returned) (simp_all add: calm_def)

lemma calm_fire:
  assumes "fire b (upd b (\<lambda>x. x\<lparr>fallOnce := Running\<rparr>) s) = Returned u s1"
  shows "calm s s1"
proof -
  from assms have "heap s1 = (heap s)(b := heap s b\<lparr>fallOnce := Running, m := False\<rparr>)"
    by (rule fire_Returned) (simp add: upd_def)
  then show ?thesis by (simp add: calm_def)
qed

lemma calm_range_backwards:
  assumes "range_backwards b ps s = Returned u s'"
  shows "calm s s'"
  by (simp add: calm_def range_backwards_fields[OF assms])

lemma calm_Fall: "Fall n b s = Some (Returned u s') \<Longrightarrow> calm s s'"
proof (induction n arbitrary: b s u s')
  case 0
  then show ?case by simp
next
  case (Suc n)
  from Suc.prems show ?case
  proof (cases rule: Fall_Returned)
    case (noop k s0)
    then show ?thesis by (simp add: calm_init)
  next
    case (fired k s0 s1 s2 s4)
    from fired(1) have k: "k = n" by simp
    have "calm s s0" using fired(2) by (rule calm_init)
    moreover have "calm s0 s1" using fired(4) by (rule calm_fire)
    moreover have "calm s1 s2"
      using fired(5) unfolding k
      by (rule range_forwards_Returned_rel[where R = calm, rotated 3])
        (auto intro: Suc.IH calm_refl calm_trans)
    moreover have "calm s2 (upd b (\<lambda>x. x\<lparr>forwards := None\<rparr>) s2)"
      by (simp add: calm_def upd_def)
    moreover have "calm (upd b (\<lambda>x. x\<lparr>forwards := None\<rparr>) s2) s4"
      using fired(6) by (rule calm_range_backwards)
    moreover have "calm s4 s'" by (simp add: calm_def fired(7) upd_def)
    ultimately show ?thesis by (blast intro: calm_trans)
  qed
qed

lemma idle_calm:
  assumes "idle s" and "calm s s'"
  shows "idle s'"
  unfolding idle_def
proof (intro allI)
  fix x
  from assms(1) have "\<not> m (heap s x)" "initOnce (heap s x) \<noteq> Running"
    "initOnce (heap s x) = Done \<longrightarrow> channel (heap s x) \<noteq> None"
    by (simp_all add: idle_def)
  moreover from assms(2) have "m (heap s' x) \<longrightarrow> m (heap s x)"
    "initOnce (heap s' x) = Running \<longrightarrow> initOnce (heap s x) = Running"
    "initOnce (heap s' x) = Done \<and> channel (heap s' x) = None \<longrightarrow>
       initOnce (heap s x) = Done \<and> channel (heap s x) = None"
    by (simp_all add: calm_def)
  ultimately show "\<not> m (heap s' x) \<and> initOnce (heap s' x) \<noteq> Running \<and>
          (initOnce (heap s' x) = Done \<longrightarrow> channel (heap s' x) \<noteq> None)"
    by auto
qed

lemma idle_register_backward:
  assumes "idle s" and "register_backward b f s = Returned u s'"
  shows "idle s'"
  using assms(2)
proof (cases rule: register_backward_Returned)
  case (1 s1 ks)
  from assms(1) calm_init[OF 1(1)] have "idle s1" by (rule idle_calm)
  then show ?thesis by (auto simp: idle_def 1(4) unlock_def upd_def)
qed

lemma idle_Forward:
  assumes "idle s" and "Forward n b f s = Some (Returned u s')"
  shows "idle s'"
  using assms(2)
proof (cases rule: Forward_Returned)
  case (fired s0 s2)
  from assms(1) calm_init[OF fired(1)] have i0: "idle s0" by (rule idle_calm)
  from calm_Fall[OF fired(4)] have c: "calm (upd b (\<lambda>x. x\<lparr>m := True\<rparr>) s0) s2" .
  have "idle (unlock b s2)"
    unfolding idle_def
  proof (intro allI)
    fix x
    from i0 have "\<not> m (heap s0 x)" "initOnce (heap s0 x) \<noteq> Running"
      "initOnce (heap s0 x) = Done \<longrightarrow> channel (heap s0 x) \<noteq> None"
      by (simp_all add: idle_def)
    with c show "\<not> m (heap (unlock b s2) x) \<and> initOnce (heap (unlock b s2) x) \<noteq> Running \<and>
          (initOnce (heap (unlock b s2) x) = Done \<longrightarrow> channel (heap (unlock b s2) x) \<noteq> None)"
      unfolding calm_def by (cases "x = b") (auto simp: unlock_def upd_def)
  qed
  then show ?thesis using fired(5) by (rule idle_register_backward)
next
  case (stored s0 ks)
  from assms(1) calm_init[OF stored(1)] have "idle s0" by (rule idle_calm)
  then have "idle (upd b (\<lambda>x. x\<lparr>forwards := Some (map_insert f ks), m := False\<rparr>) s0)"
    by (auto simp: idle_def upd_def)
  then show ?thesis using stored(5) by (rule idle_register_backward)
qed

lemma reachable_idle: "reachable s \<Longrightarrow> idle s"
proof (induction rule: reachable.induct)
  case (start hk)
  show ?case by (simp add: idle_def init_state_def zero_barrier_def)
next
  case (fall s n b u s')
  from fall.IH calm_Fall[OF fall.hyps(2)] show ?case by (rule idle_calm)
next
  case (forward s n b f u s')
  from forward.IH forward.hyps(2) show ?case by (rule idle_Forward)
next
  case (barrier s b h s')
  from barrier.hyps(2) have "init b s = Returned () s'"
    by (cases "init b s") (simp_all add: Barrier_def)
  from barrier.IH calm_init[OF this] show ?case by (rule idle_calm)
qed

lemma init_returns:
  assumes "idle s"
  obtains s0 where "init b s = Returned () s0"
proof (cases "initOnce (heap s b)")
  case Fresh
  from assms have "\<not> m (heap s b)" by (simp add: idle_def)
  with Fresh have "\<exists>s0. init b s = Returned () s0"
    by (simp add: init_def lock_def make_chan_def upd_def Let_def)
  with that show ?thesis by blast
next
  case Running
  with assms show ?thesis by (simp add: idle_def)
next
  case Done
  then have "init b s = Returned () s" by (simp add: init_def)
  with that show ?thesis by blast
qed

lemma fire_returns:
  assumes "\<not> m (heap s b)" and "channel (heap s b) = Some c" and "\<not> closed s c"
  obtains s1 where "fire b s = Returned () s1"
proof -
  from assms(1) have l: "lock b s = Returned () (upd b (\<lambda>x. x\<lparr>m := True\<rparr>) s)"
    by (simp add: lock_def)
  let ?t = "call_hook b (upd b (\<lambda>x. x\<lparr>m := True\<rparr>) s)"
  from assms(2,3) have "channel (heap ?t b) = Some c" "\<not> closed ?t c"
    by (simp_all add: upd_simps)
  then have "\<exists>t2. close_chan b ?t = Returned () t2" by (simp add: close_chan_def)
  then obtain t2 where "close_chan b ?t = Returned () t2" by blast
  with l have "fire b s = Returned () (unlock b t2)" by (simp add: fire_def)
  with that show ?thesis by blast
qed

lemma Fall_fired_outcome:
  assumes i: "init b s = Returned u0 s0" and fr: "fallOnce (heap s0 b) = Fresh"
    and f: "fire b (upd b (\<lambda>x. x\<lparr>fallOnce := Running\<rparr>) s0) = Returned u1 s1"
    and F: "Fall (Suc n) b s = Some r"
  shows "evolves s1 (final r)"
proof -
  let ?l = "range_forwards (Fall n) b (keys (forwards (heap s1 b))) s1"
  from i fr f F obtain r2 where l: "?l = Some r2" by (cases ?l) simp_all
  then have e2: "evolves s1 (final r2)"
    by (rule evolves_range_forwards[rotated]) (rule evolves_Fall)
  show ?thesis
  proof (cases r2)
    case (Blocked s2)
    with i fr f F l have "r = Blocked s2" by simp
    with e2 Blocked show ?thesis by simp
  next
    case (Panicked s2)
    with i fr f F l have "r = Panicked s2" by simp
    with e2 Panicked show ?thesis by simp
  next
    case (Returned u2 s2)
    let ?s3 = "upd b (\<lambda>x. x\<lparr>forwards := None\<rparr>) s2"
    let ?rb = "range_backwards b (keys (backwards (heap ?s3 b))) ?s3"
    from e2 Returned have "evolves s1 ?s3"
      using evolves_set_forwards[of s2 b None] by (auto intro: evolves_trans)
    then have e4: "evolves s1 (final ?rb)"
      using evolves_range_backwards by (rule evolves_trans)
    show ?thesis
    proof (cases ?rb)
      case (Blocked s4)
      with i fr f F l Returned have "r = Blocked s4" by (simp add: Let_def)
      with e4 Blocked show ?thesis by simp
    next
      case (Panicked s4)
      with i fr f F l Returned have "r = Panicked s4" by (simp add: Let_def)
      with e4 Panicked show ?thesis by simp
    next
      case R4: (Returned u4 s4)
      with i fr f F l Returned
      have "r = Returned () (upd b (\<lambda>x. x\<lparr>fallOnce := Done\<rparr>) s4)" by (simp add: Let_def)
      moreover from e4 R4 have "evolves s1 s4" by simp
      then have "evolves s1 (upd b (\<lambda>x. x\<lparr>fallOnce := Done\<rparr>) s4)"
        using evolves_set_done by (rule evolves_trans)
      ultimately show ?thesis by simp
    qed
  qed
qed

lemma reachable_Fall_fires:
  assumes "reachable s" and "\<not> fallen s b" and "Fall k b s = Some r"
  obtains s1 where
    "trace s1 = trace s @ (if FallHook (heap s b) then [HookCalled b] else []) @ [ChanClosed b]"
    and "fallOnce (heap s1 b) = Running" and "evolves s1 (final r)" and "well_formed s1"
    and "FallHook (heap s1 b) = FallHook (heap s b)"
proof -
  from assms(3) obtain n where k: "k = Suc n" by (cases k) simp_all
  from assms(1) have w: "well_formed s" and idl: "idle s"
    by (rule reachable_wf, rule reachable_idle)
  from idl obtain s0 where i: "init b s = Returned () s0" by (rule init_returns)
  from w assms(2) have "fallOnce (heap s b) = Fresh" by (rule pending_Fresh)
  with init_fields(2)[OF i, of b] have fr: "fallOnce (heap s0 b) = Fresh" by simp
  from w i have w0: "well_formed s0" by (rule wf_init)
  from idl calm_init[OF i] have i0: "idle s0" by (rule idle_calm)
  with init_fields(1)[OF i] obtain c where c: "channel (heap s0 b) = Some c"
    by (auto simp: idle_def)
  from w0 have "fire_ok s0 b" by (simp add: well_formed_def)
  with fr c have nc: "\<not> closed s0 c" by (simp add: fire_ok_def fallen_iff)
  let ?s = "upd b (\<lambda>x. x\<lparr>fallOnce := Running\<rparr>) s0"
  from i0 c nc have "\<not> m (heap ?s b)" "channel (heap ?s b) = Some c" "\<not> closed ?s c"
    by (simp_all add: idle_def upd_def)
  then obtain s1 where f: "fire b ?s = Returned () s1" by (rule fire_returns)
  from f have t1: "trace s1 = trace ?s @ (if FallHook (heap ?s b) then [HookCalled b] else [])
      @ [ChanClosed b]"
    by (rule fire_Returned)
  from f have r1: "fallOnce (heap s1 b) = Running"
    by (rule fire_Returned) (simp add: upd_def)
  from i fr f assms(3) have e: "evolves s1 (final r)"
    unfolding k by (rule Fall_fired_outcome)
  from t1 init_fields(3,4)[OF i]
  have tr: "trace s1 = trace s @ (if FallHook (heap s b) then [HookCalled b] else [])
      @ [ChanClosed b]"
    by (simp add: upd_def)
  from w0 fr f have w1: "well_formed s1" by (rule wf_fire)
  from f have "FallHook (heap s1 b) = FallHook (heap s0 b)"
    by (rule fire_Returned) (simp add: upd_def)
  with init_fields(3)[OF i, of b] have fh: "FallHook (heap s1 b) = FallHook (heap s b)" by simp
  from tr r1 e w1 fh show ?thesis by (rule that)
qed

lemma reachable_Fall_outcome:
  assumes "reachable s" and "Fall k b s = Some r"
  shows "fallen (final r) b" and "close_count (final r) b = 1"
    and "hook_count (final r) b = of_bool (FallHook (heap s b))"
proof -
  from assms(1) have w: "well_formed s" and idl: "idle s"
    by (rule reachable_wf, rule reachable_idle)
  from assms(2) obtain n where k: "k = Suc n" by (cases k) simp_all
  have "fallen (final r) b \<and> close_count (final r) b = 1 \<and>
        hook_count (final r) b = of_bool (FallHook (heap s b))"
  proof (cases "fallen s b")
    case True
    then have d: "fallOnce (heap s b) = Done" by (simp add: reachable_fallen_Done[OF assms(1)])
    from idl obtain s0 where i: "init b s = Returned () s0" by (rule init_returns)
    from w i have "well_formed s0" by (rule wf_init)
    then have "fire_ok s0 b" by (simp add: well_formed_def)
    moreover from d init_fields(2)[OF i, of b] have d0: "fallOnce (heap s0 b) = Done" by simp
    moreover from i d0 assms(2) have "r = Returned () s0" unfolding k by simp
    ultimately show ?thesis using init_fields(3)[OF i, of b] by (simp add: fire_ok_def)
  next
    case False
    from w False have fr: "fallOnce (heap s b) = Fresh" by (rule pending_Fresh)
    from idl obtain s0 where i: "init b s = Returned () s0" by (rule init_returns)
    from fr init_fields(2)[OF i, of b] have fr0: "fallOnce (heap s0 b) = Fresh" by simp
    from w i have w0: "well_formed s0" by (rule wf_init)
    from assms(1) False assms(2) obtain s1 where
      t1: "trace s1 = trace s @ (if FallHook (heap s b) then [HookCalled b] else []) @ [ChanClosed b]"
      and r1: "fallOnce (heap s1 b) = Running" and e: "evolves s1 (final r)"
      and w1: "well_formed s1" and fh: "FallHook (heap s1 b) = FallHook (heap s b)"
      by (rule reachable_Fall_fires)
    from w1 have c1: "chan_ok s1 b" and f1: "fire_ok s1 b" by (simp_all add: well_formed_def)
    from f1 r1 have "fallen s1 b" "close_count s1 b = 1"
      "hook_count s1 b = of_bool (FallHook (heap s1 b))" by (simp_all add: fire_ok_def)
    moreover from e r1 have "hook_count (final r) b = hook_count s1 b"
      "close_count (final r) b = close_count s1 b" unfolding evolves_def by auto
    moreover from c1 e \<open>fallen s1 b\<close> have "fallen (final r) b" by (rule fallen_evolves)
    ultimately show ?thesis using fh by simp
  qed
  then show "fallen (final r) b" and "close_count (final r) b = 1"
    and "hook_count (final r) b = of_bool (FallHook (heap s b))" by simp_all
qed

subsection \<open>Every fall has an outcome\<close>

text \<open>
  The depth of the calls of \<^verbatim>\<open>Fall\<close> is bounded by the number of waiting barriers,
  which is finite in every reachable state: for every bound above it \<^verbatim>\<open>Fall\<close> has
  an outcome (it returns, blocks or panics), and the outcome is the same for all of them.
\<close>

lemma waiting_falls_to:
  assumes "falls_to s s'"
  shows "waiting s' \<subseteq> waiting s"
proof
  fix x
  assume "x \<in> waiting s'"
  then have f: "fallOnce (heap s' x) = Fresh" and k: "keys (forwards (heap s' x)) \<noteq> []"
    by (simp_all add: waiting_def)
  from assms have e: "evolves s s'"
    and sub: "set (keys (forwards (heap s' x))) \<subseteq> set (keys (forwards (heap s x)))"
    by (simp_all add: falls_to_def)
  from e f have "fallOnce (heap s x) = Fresh" unfolding evolves_def by blast
  moreover from k sub have "keys (forwards (heap s x)) \<noteq> []" by auto
  ultimately show "x \<in> waiting s" by (simp add: waiting_def)
qed

lemma waiting_upd_same:
  assumes "fallOnce (g (heap s b)) = fallOnce (heap s b)"
    and "forwards (g (heap s b)) = forwards (heap s b)"
  shows "waiting (upd b g s) = waiting s"
  using assms by (auto simp: waiting_def upd_simps)

lemma waiting_register_backward:
  assumes "register_backward b f s = Returned u s'"
  shows "waiting s' \<subseteq> waiting s"
  using assms
proof (cases rule: register_backward_Returned)
  case (1 s1 ks)
  from 1(1) have "falls_to s s1" by (rule falls_to_init)
  then have "waiting s1 \<subseteq> waiting s" by (rule waiting_falls_to)
  moreover have "waiting s' = waiting s1"
    unfolding 1(4) unlock_def by (simp add: waiting_upd_same upd_simps)
  ultimately show ?thesis by simp
qed

lemma waiting_Forward:
  assumes "Forward n b f s = Some (Returned u s')"
  shows "waiting s' \<subseteq> insert b (waiting s)"
  using assms
proof (cases rule: Forward_Returned)
  case (fired s0 s2)
  from fired(1) have "falls_to s s0" by (rule falls_to_init)
  then have 0: "waiting s0 \<subseteq> waiting s" by (rule waiting_falls_to)
  have 1: "waiting (upd b (\<lambda>x. x\<lparr>m := True\<rparr>) s0) = waiting s0"
    by (simp add: waiting_upd_same)
  from fired(4) have "falls_to (upd b (\<lambda>x. x\<lparr>m := True\<rparr>) s0) s2" by (rule falls_to_Fall)
  then have 2: "waiting s2 \<subseteq> waiting (upd b (\<lambda>x. x\<lparr>m := True\<rparr>) s0)" by (rule waiting_falls_to)
  have 3: "waiting (unlock b s2) = waiting s2"
    unfolding unlock_def by (simp add: waiting_upd_same)
  from fired(5) have "waiting s' \<subseteq> waiting (unlock b s2)" by (rule waiting_register_backward)
  with 0 1 2 3 show ?thesis by auto
next
  case (stored s0 ks)
  from stored(1) have "falls_to s s0" by (rule falls_to_init)
  then have 0: "waiting s0 \<subseteq> waiting s" by (rule waiting_falls_to)
  have 1: "waiting (upd b (\<lambda>x. x\<lparr>forwards := Some (map_insert f ks), m := False\<rparr>) s0)
      \<subseteq> insert b (waiting s0)"
    by (auto simp: waiting_def upd_simps)
  from stored(5) have "waiting s'
      \<subseteq> waiting (upd b (\<lambda>x. x\<lparr>forwards := Some (map_insert f ks), m := False\<rparr>) s0)"
    by (rule waiting_register_backward)
  with 0 1 show ?thesis by auto
qed

lemma reachable_finite_waiting: "reachable s \<Longrightarrow> finite (waiting s)"
proof (induction rule: reachable.induct)
  case (start hk)
  have "waiting (init_state hk) = {}"
    by (simp add: waiting_def init_state_def zero_barrier_def)
  then show ?case by simp
next
  case (fall s n b u s')
  from fall.hyps(2) have "falls_to s s'" by (rule falls_to_Fall)
  then have "waiting s' \<subseteq> waiting s" by (rule waiting_falls_to)
  then show ?case using fall.IH by (rule finite_subset)
next
  case (forward s n b f u s')
  from forward.hyps(2) have "waiting s' \<subseteq> insert b (waiting s)" by (rule waiting_Forward)
  moreover from forward.IH have "finite (insert b (waiting s))" by simp
  ultimately show ?case by (rule finite_subset)
next
  case (barrier s b h s')
  from barrier.hyps(2) have "init b s = Returned () s'"
    by (cases "init b s") (simp_all add: Barrier_def)
  then have "falls_to s s'" by (rule falls_to_init)
  then have "waiting s' \<subseteq> waiting s" by (rule waiting_falls_to)
  then show ?case using barrier.IH by (rule finite_subset)
qed

lemma range_forwards_defined:
  assumes call: "\<And>f t. R s t \<Longrightarrow> \<exists>r. call f t = Some r"
    and step: "\<And>f t u t'. call f t = Some (Returned u t') \<Longrightarrow> R t t'"
    and trans: "\<And>t t'. R s t \<Longrightarrow> R t t' \<Longrightarrow> R s t'"
  shows "R s t \<Longrightarrow> \<exists>r. range_forwards call b ks t = Some r"
proof (induction ks arbitrary: t)
  case Nil
  show ?case by simp
next
  case (Cons f fs)
  show ?case
  proof (cases "f \<in> set (keys (forwards (heap t b)))")
    case False
    with Cons.IH[OF Cons.prems] show ?thesis by simp
  next
    case True
    from Cons.prems obtain r1 where c: "call f t = Some r1" using call by blast
    show ?thesis
    proof (cases r1)
      case (Returned u1 t1)
      with c have "R t t1" by (simp add: step)
      with Cons.prems have "R s t1" by (rule trans)
      then have "\<exists>r. range_forwards call b fs t1 = Some r" by (rule Cons.IH)
      with True c Returned show ?thesis by simp
    next
      case (Blocked t1)
      with True c show ?thesis by simp
    next
      case (Panicked t1)
      with True c show ?thesis by simp
    qed
  qed
qed

lemma Fall_Suc_defined:
  assumes "range_forwards (Fall n) b (keys (forwards (heap s1 b))) s1 = Some q"
    and "init b s = Returned u0 s0" and "fallOnce (heap s0 b) = Fresh"
    and "fire b (upd b (\<lambda>x. x\<lparr>fallOnce := Running\<rparr>) s0) = Returned u1 s1"
  shows "\<exists>r. Fall (Suc n) b s = Some r"
proof (cases q)
  case (Returned u2 s2)
  let ?s3 = "upd b (\<lambda>x. x\<lparr>forwards := None\<rparr>) s2"
  show ?thesis
    using assms Returned
    by (cases "range_backwards b (keys (backwards (heap ?s3 b))) ?s3") (simp_all add: Let_def)
next
  case (Blocked s2)
  with assms show ?thesis by simp
next
  case (Panicked s2)
  with assms show ?thesis by simp
qed

lemma Fall_defined:
  "finite (waiting s) \<Longrightarrow> card (waiting s) < n \<Longrightarrow> \<exists>r. Fall n b s = Some r"
proof (induction n arbitrary: b s)
  case 0
  then show ?case by simp
next
  case (Suc n)
  show ?case
  proof (cases "init b s")
    case (Blocked s0)
    then show ?thesis by simp
  next
    case (Panicked s0)
    then show ?thesis by simp
  next
    case (Returned u0 s0)
    show ?thesis
    proof (cases "fallOnce (heap s0 b)")
      case Running
      with Returned show ?thesis by simp
    next
      case Done
      with Returned show ?thesis by simp
    next
      case Fresh
      show ?thesis
      proof (cases "fire b (upd b (\<lambda>x. x\<lparr>fallOnce := Running\<rparr>) s0)")
        case (Blocked s1)
        with Returned Fresh show ?thesis by simp
      next
        case (Panicked s1)
        with Returned Fresh show ?thesis by simp
      next
        case R1: (Returned u1 s1)
        have "falls_to s s0" using Returned by (rule falls_to_init)
        also have "falls_to s0 s1" using Fresh R1 by (rule falls_to_fire)
        finally have f1: "falls_to s s1" .
        from R1 have run: "fallOnce (heap s1 b) = Running"
          by (rule fire_Returned) (simp add: upd_def)
        have "\<exists>q. range_forwards (Fall n) b (keys (forwards (heap s1 b))) s1 = Some q"
        proof (cases "keys (forwards (heap s1 b)) = []")
          case True
          then show ?thesis by simp
        next
          case False
          from f1 have "set (keys (forwards (heap s1 b))) \<subseteq> set (keys (forwards (heap s b)))"
            by (simp add: falls_to_def)
          with False have "keys (forwards (heap s b)) \<noteq> []"
            by (cases "keys (forwards (heap s1 b))") auto
          moreover from Fresh init_fields(2)[OF Returned, of b]
          have "fallOnce (heap s b) = Fresh" by simp
          ultimately have bw: "b \<in> waiting s" by (simp add: waiting_def)
          have inner: "\<exists>r. Fall n f t = Some r" if t: "falls_to s1 t" for f t
          proof -
            from f1 t have "falls_to s t" by (rule falls_to_trans)
            then have sub: "waiting t \<subseteq> waiting s" by (rule waiting_falls_to)
            from t run have "fallOnce (heap t b) \<noteq> Fresh"
              unfolding falls_to_def evolves_def by auto
            then have "b \<notin> waiting t" by (simp add: waiting_def)
            with sub bw have "waiting t \<subset> waiting s" by blast
            with Suc.prems(1) have "card (waiting t) < card (waiting s)"
              by (rule psubset_card_mono)
            with Suc.prems(2) have "card (waiting t) < n" by simp
            moreover from Suc.prems(1) sub have "finite (waiting t)" by (rule rev_finite_subset)
            ultimately show ?thesis by (rule Suc.IH[rotated])
          qed
          show ?thesis
            by (rule range_forwards_defined[where R = falls_to and s = s1])
              (auto intro: inner falls_to_Fall falls_to_trans falls_to_refl)
        qed
        then obtain q where "range_forwards (Fall n) b (keys (forwards (heap s1 b))) s1 = Some q"
          by blast
        then show ?thesis using Returned Fresh R1 by (rule Fall_Suc_defined)
      qed
    qed
  qed
qed

lemma reachable_Fall_returns_outcome:
  assumes "reachable s"
  shows "\<exists>k r. \<forall>n\<ge>k. Fall n b s = Some r"
proof -
  from assms have "finite (waiting s)" by (rule reachable_finite_waiting)
  then obtain r where F: "Fall (Suc (card (waiting s))) b s = Some r"
    using Fall_defined[of s "Suc (card (waiting s))" b] by auto
  have "Fall n b s = Some r" if "Suc (card (waiting s)) \<le> n" for n
    using F that by (rule Fall_fuel_mono)
  then show ?thesis by blast
qed

lemma Fall_outcome_unique:
  assumes "Fall n b s = Some r" and "Fall n' b s = Some r'"
  shows "r' = r"
proof -
  from assms(1) have "Fall (max n n') b s = Some r" by (rule Fall_fuel_mono) simp
  moreover from assms(2) have "Fall (max n n') b s = Some r'" by (rule Fall_fuel_mono) simp
  ultimately show ?thesis by simp
qed

lemma hook_then_close:
  assumes "reachable s" and "\<not> fallen s b" and "FallHook (heap s b)"
    and "Fall k b s = Some r"
  shows "(\<exists>rest. trace (final r) = trace s @ HookCalled b # ChanClosed b # rest \<and>
                 HookCalled b \<notin> set rest) \<and>
         hook_count (final r) b = 1 \<and>
         (\<forall>s''. later (final r) s'' \<longrightarrow> hook_count s'' b = 1)"
proof -
  from assms(1) have w: "well_formed s" by (rule reachable_wf)
  then have "fallOnce (heap s b) = Fresh" using assms(2) by (rule pending_Fresh)
  moreover from w have "fire_ok s b" by (simp add: well_formed_def)
  ultimately have h0: "hook_count s b = 0" by (simp add: fire_ok_def)
  from assms(1,2,4) obtain s1 where
    t1: "trace s1 = trace s @ (if FallHook (heap s b) then [HookCalled b] else []) @ [ChanClosed b]"
    and r1: "fallOnce (heap s1 b) = Running" and e: "evolves s1 (final r)"
    by (rule reachable_Fall_fires)
  from e obtain rest where r: "trace (final r) = trace s1 @ rest" unfolding evolves_def by blast
  from e r1 have nf: "fallOnce (heap (final r) b) \<noteq> Fresh"
    and hc: "hook_count (final r) b = hook_count s1 b"
    unfolding evolves_def by auto
  from hc r have "count_list rest (HookCalled b) = 0" by (simp add: hook_count_def)
  then have nr: "HookCalled b \<notin> set rest" by (simp add: count_list_0_iff)
  from t1 assms(3) h0 have "hook_count s1 b = 1" by (simp add: hook_count_def)
  with hc have one: "hook_count (final r) b = 1" by simp
  have ever: "hook_count s'' b = 1" if "later (final r) s''" for s''
  proof -
    from that have "evolves (final r) s''" by (rule later_evolves)
    with nf have "hook_count s'' b = hook_count (final r) b" unfolding evolves_def by auto
    with one show ?thesis by simp
  qed
  from r t1 assms(3) nr one ever show ?thesis by auto
qed

section \<open>The claims\<close>

text \<open>
  Scenarios are run from zero-valued barriers with \<open>and_then\<close>; \<open>prims\<close> unfolds
  the operations to evaluate them.
\<close>

lemmas prims = init_def lock_def unlock_def make_chan_def close_chan_def call_hook_def
  upd_def fire_def fallen_def map_insert_def forward_locked_def register_backward_def
  Forward_def Barrier_def and_then_def init_state_def zero_barrier_def Let_def

subsection \<open>C1: a forwarding cycle\<close>

text \<open>
  C1. The claim: with \<^verbatim>\<open>a.Forward(b)\<close> and \<^verbatim>\<open>b.Forward(a)\<close> registered,
  \<^verbatim>\<open>a.Fall()\<close> terminates and leaves both barriers fallen. In the code the call never
  returns: the propagation from \<open>b\<close> calls \<^verbatim>\<open>a.Fall()\<close> again while the function of
  \<^verbatim>\<open>a.fallOnce\<close> is still executing, and that call of \<^verbatim>\<open>Do\<close> blocks for ever. Both
  channels have been closed once by then, and both \<^verbatim>\<open>fallOnce\<close> functions stay
  unfinished. Here \<open>a = 0\<close>, \<open>b = 1\<close>; no bound on the call depth makes the call
  return.
\<close>

theorem cycle_Fall_never_returns:
  "(\<forall>n u s'. and_then (and_then (Forward k 0 1 (init_state hk)) (Forward k 1 0)) (Fall n 0)
       \<noteq> Some (Returned u s')) \<and>
   (\<exists>s'. and_then (and_then (Forward k 0 1 (init_state hk)) (Forward k 1 0))
            (Fall (Suc (Suc (Suc n))) 0) = Some (Blocked s') \<and>
         fallen s' 0 \<and> fallen s' 1 \<and> fallOnce (heap s' 0) = Running \<and>
         fallOnce (heap s' 1) = Running \<and> close_count s' 0 = 1 \<and> close_count s' 1 = 1)"
proof
  show "\<forall>n u s'. and_then (and_then (Forward k 0 1 (init_state hk)) (Forward k 1 0)) (Fall n 0)
       \<noteq> Some (Returned u s')"
  proof (intro allI)
    fix n u s'
    consider "n = 0" | "n = Suc 0" | "n = Suc (Suc 0)" | j where "n = Suc (Suc (Suc j))"
      by (metis not0_implies_Suc)
    then show "and_then (and_then (Forward k 0 1 (init_state hk)) (Forward k 1 0)) (Fall n 0)
       \<noteq> Some (Returned u s')"
      by cases (simp_all add: prims)
  qed
  show "\<exists>s'. and_then (and_then (Forward k 0 1 (init_state hk)) (Forward k 1 0))
            (Fall (Suc (Suc (Suc n))) 0) = Some (Blocked s') \<and>
         fallen s' 0 \<and> fallen s' 1 \<and> fallOnce (heap s' 0) = Running \<and>
         fallOnce (heap s' 1) = Running \<and> close_count s' 0 = 1 \<and> close_count s' 1 = 1"
    by (simp add: prims close_count_def)
qed

subsection \<open>C2: Forward on a fallen barrier\<close>

text \<open>
  C2. The claim: \<^verbatim>\<open>b.Forward(f)\<close> on a fallen \<open>b\<close> fires \<open>f\<close> at once and adds no
  entry to either set. The code fires \<open>f\<close> and leaves \<^verbatim>\<open>b.forwards\<close> alone, but the
  \<^verbatim>\<open>return\<close> leaves only the closure, and the rest of \<^verbatim>\<open>Forward\<close> still stores
  \<open>b\<close> into \<^verbatim>\<open>f.backwards\<close>. Evaluated for \<^verbatim>\<open>b.Fall(); b.Forward(f)\<close> on zero-valued
  barriers, for all \<open>b\<close> and \<open>f\<close>.
\<close>

theorem Forward_on_fallen_stores_backward:
  "\<exists>s'. and_then (Fall 1 b (init_state hk)) (Forward 1 b f) = Some (Returned () s') \<and>
     fallen s' f \<and> forwards (heap s' b) = None \<and> b \<in> set (keys (backwards (heap s' f)))"
  by (cases "b = f") (simp_all add: prims)

subsection \<open>C3: Fall called again\<close>

text \<open>
  C3. The claim: for every barrier and every \<open>N \<ge> 1\<close>, \<open>N\<close> calls of \<^verbatim>\<open>Fall\<close>
  run the hook once and close the channel once, and every call after the first is a
  no-op. The comment of \<^verbatim>\<open>Fall\<close> says the same: it "can be called any number of times".
  In the code this fails for a barrier on a forwarding cycle. After \<^verbatim>\<open>a.Forward(b)\<close>
  and \<^verbatim>\<open>b.Forward(a)\<close> (\<open>a = 0\<close>, \<open>b = 1\<close>) no number \<open>N \<ge> 1\<close> of calls
  \<^verbatim>\<open>a.Fall()\<close> in a row ever returns, for any bound on the call depth: the first call
  blocks, with the hook of \<open>a\<close> run once and its channel closed once, and the
  \<^verbatim>\<open>fallOnce\<close> of both barriers is left executing. Every further call of
  \<^verbatim>\<open>a.Fall()\<close> or \<^verbatim>\<open>b.Fall()\<close> made in the state the first call leaves (by another
  goroutine) blocks as well instead of returning at once.
\<close>

theorem Fall_again_blocks_on_cycle:
  "\<exists>s. and_then (Forward k 0 1 (init_state hk)) (Forward k 1 0) = Some (Returned () s) \<and>
     (\<forall>N n u s'. Fall_times (Suc N) n 0 s \<noteq> Some (Returned u s')) \<and>
     (\<exists>s'. Fall (Suc (Suc (Suc n))) 0 s = Some (Blocked s') \<and>
           hook_count s' 0 = of_bool (hk 0) \<and> close_count s' 0 = 1 \<and>
           Fall (Suc j) 0 s' = Some (Blocked s') \<and> Fall (Suc j) 1 s' = Some (Blocked s'))"
proof -
  have "\<exists>s. and_then (Forward k 0 1 (init_state hk)) (Forward k 1 0) = Some (Returned () s) \<and>
     (\<exists>s'. Fall (Suc (Suc (Suc n))) 0 s = Some (Blocked s') \<and>
           hook_count s' 0 = of_bool (hk 0) \<and> close_count s' 0 = 1 \<and>
           Fall (Suc j) 0 s' = Some (Blocked s') \<and> Fall (Suc j) 1 s' = Some (Blocked s'))"
    by (simp add: prims hook_count_def close_count_def)
  then obtain s where
    s: "and_then (Forward k 0 1 (init_state hk)) (Forward k 1 0) = Some (Returned () s)"
    and blocks: "\<exists>s'. Fall (Suc (Suc (Suc n))) 0 s = Some (Blocked s') \<and>
           hook_count s' 0 = of_bool (hk 0) \<and> close_count s' 0 = 1 \<and>
           Fall (Suc j) 0 s' = Some (Blocked s') \<and> Fall (Suc j) 1 s' = Some (Blocked s')"
    by blast
  have never: "Fall n 0 s \<noteq> Some (Returned u s')" for n u s'
  proof -
    consider "n = 0" | "n = Suc 0" | "n = Suc (Suc 0)" | i where "n = Suc (Suc (Suc i))"
      by (metis not0_implies_Suc)
    then have "and_then (and_then (Forward k 0 1 (init_state hk)) (Forward k 1 0)) (Fall n 0)
        \<noteq> Some (Returned u s')"
      by cases (simp_all add: prims)
    then have "and_then (Some (Returned () s)) (Fall n 0) \<noteq> Some (Returned u s')"
      unfolding s .
    then show ?thesis by (simp add: and_then_def)
  qed
  have "Fall_times (Suc N) n 0 s \<noteq> Some (Returned u s')" for N n u s'
  proof (cases "Fall n 0 s")
    case None
    then show ?thesis by (simp add: and_then_def)
  next
    case (Some r)
    show ?thesis
    proof (cases r)
      case (Returned u1 s1)
      with Some never[of n u1 s1] show ?thesis by simp
    next
      case (Blocked s1)
      with Some show ?thesis by (simp add: and_then_def)
    next
      case (Panicked s1)
      with Some show ?thesis by (simp add: and_then_def)
    qed
  qed
  with s blocks show ?thesis by blast
qed

subsection \<open>C4: the sets after a fall\<close>

text \<open>
  The claim C4 says that both sets of \<open>b\<close> are empty after \<^verbatim>\<open>b.Fall()\<close>. After
  \<^verbatim>\<open>a.Forward(b); b.Fall()\<close> (\<open>a = 0\<close>, \<open>b = 1\<close>) the backward set of \<open>b\<close> still
  holds \<open>a\<close>: nothing in the package removes an entry of a backward set.
\<close>

theorem backwards_not_emptied:
  "(case and_then (Forward 1 0 1 (init_state (\<lambda>_. False))) (Fall 1 1) of
      Some (Returned _ s') \<Rightarrow> fallen s' 1 \<and> backwards (heap s' 1) = Some [0]
    | _ \<Rightarrow> False)"
  by (simp add: prims)

text \<open>
  C4, amended. In a reachable state a fallen barrier has an empty (nil) forward set.
  After a \<^verbatim>\<open>b.Fall()\<close> that returns, \<^verbatim>\<open>b.forwards\<close> is nil; if \<open>b\<close> had not
  fallen before the call, then no barrier lists \<open>b\<close> in its forward set any more (the
  barriers of \<^verbatim>\<open>b.backwards\<close> have been told to forget \<open>b\<close>); and the backward set of
  an initialised \<open>b\<close> is what it was before the call.
\<close>

theorem Fall_forwards_cleanup:
  assumes "reachable s" and "Fall k b s = Some (Returned u s')"
  shows "(fallen s b \<longrightarrow> forwards (heap s b) = None) \<and>
         forwards (heap s' b) = None \<and>
         (\<not> fallen s b \<longrightarrow> (\<forall>p. b \<notin> set (keys (forwards (heap s' p))))) \<and>
         (initOnce (heap s b) = Done \<longrightarrow> backwards (heap s' b) = backwards (heap s b))"
proof -
  from assms(1) have w: "well_formed s" and e: "edges_ok s"
    by (rule reachable_wf, rule reachable_edges)
  have 0: "forwards (heap s b) = None" if "fallen s b"
  proof -
    from that have "fallOnce (heap s b) = Done" by (simp add: reachable_fallen_Done[OF assms(1)])
    moreover from w have "fire_ok s b" by (simp add: well_formed_def)
    ultimately show ?thesis by (simp add: fire_ok_def)
  qed
  from w assms(2) have "well_formed s'" by (rule wf_Fall)
  then have "fire_ok s' b" by (simp add: well_formed_def)
  with Fall_Returned_done(1)[OF assms(2)] have 1: "forwards (heap s' b) = None"
    by (simp add: fire_ok_def)
  have ft: "falls_to s s'" using assms(2) by (rule falls_to_Fall)
  then have 3: "backwards (heap s' b) = backwards (heap s b)" if "initOnce (heap s b) = Done"
    using that by (simp add: falls_to_def)
  have 2: "b \<notin> set (keys (forwards (heap s' p)))" if nf: "\<not> fallen s b" for p
  proof -
    from w nf have fr: "fallOnce (heap s b) = Fresh" by (rule pending_Fresh)
    from assms(2) show ?thesis
    proof (cases rule: Fall_Returned)
      case (noop j s0)
      with fr init_fields(2)[OF noop(2), of b] show ?thesis by simp
    next
      case (fired j s0 s1 s2 s4)
      let ?s3 = "upd b (\<lambda>x. x\<lparr>forwards := None\<rparr>) s2"
      have "falls_to s s0" using fired(2) by (rule falls_to_init)
      also have "falls_to s0 s1" using fired(3,4) by (rule falls_to_fire)
      also have "falls_to s1 ?s3" using fired(5,6) by (rule Fall_fired_tail)
      finally have "falls_to s ?s3" .
      with e have e3: "edges_ok ?s3" by (rule edges_ok_falls_to)
      have inb: "p \<in> set (keys (backwards (heap ?s3 b)))"
        if "b \<in> set (keys (forwards (heap ?s3 p)))"
        using e3 that unfolding edges_ok_def by blast
      have bw: "backwards (heap ?s3 b) = backwards (heap s2 b)" by (simp add: upd_def)
      note f = range_backwards_fields(10)[OF fired(6), of p]
      have "b \<notin> set (keys (forwards (heap s4 p)))"
      proof (cases "p \<in> set (keys (backwards (heap s2 b)))")
        case True
        then show ?thesis by (cases "forwards (heap ?s3 p)") (simp_all add: f)
      next
        case False
        with inb bw have "b \<notin> set (keys (forwards (heap ?s3 p)))" by auto
        with False show ?thesis by (simp add: f)
      qed
      then show ?thesis by (auto simp: fired(7) upd_def)
    qed
  qed
  from 0 1 2 3 show ?thesis by blast
qed

text \<open>
  \<^verbatim>\<open>a.Forward(b); b.Fall()\<close> with \<open>a = 0\<close>, \<open>b = 1\<close>.
\<close>

theorem Fall_forwards_cleanup_witness:
  "\<exists>s s'. Forward 1 0 1 (init_state (\<lambda>_. False)) = Some (Returned () s) \<and>
      Fall 1 1 s = Some (Returned () s') \<and> forwards (heap s 0) = Some [1] \<and>
      forwards (heap s' 1) = None \<and> (\<forall>p. 1 \<notin> set (keys (forwards (heap s' p)))) \<and>
      backwards (heap s' 1) = Some [0]"
proof -
  have "\<exists>s. Forward 1 0 1 (init_state (\<lambda>_. False)) = Some (Returned () s) \<and>
      \<not> fallen s 1 \<and> initOnce (heap s 1) = Done \<and> backwards (heap s 1) = Some [0] \<and>
      forwards (heap s 0) = Some [1] \<and>
      (\<exists>s'. Fall 1 1 s = Some (Returned () s'))"
    by (simp add: prims)
  then obtain s s' where F: "Forward 1 0 1 (init_state (\<lambda>_. False)) = Some (Returned () s)"
    and p: "\<not> fallen s 1" "initOnce (heap s 1) = Done" "backwards (heap s 1) = Some [0]"
      "forwards (heap s 0) = Some [1]"
    and G: "Fall 1 1 s = Some (Returned () s')" by blast
  from Fall_forwards_cleanup[OF reachable.forward[OF reachable.start F] G] p F G
  show ?thesis by auto
qed

subsection \<open>C5: back-references after a fall\<close>

text \<open>
  The claim C5 says that after \<^verbatim>\<open>a.Fall()\<close> no barrier \<open>a\<close> had forwarded into lists
  \<open>a\<close> in its backward set. After \<^verbatim>\<open>a.Forward(f); a.Fall()\<close> (\<open>a = 0\<close>, \<open>f = 1\<close>)
  the forward set of \<open>a\<close> is nil and \<open>f\<close> has fallen, but \<open>f\<close> still lists \<open>a\<close>.
\<close>

theorem backward_entry_survives_fall:
  "(case and_then (Forward 1 0 1 (init_state (\<lambda>_. False))) (Fall 2 0) of
      Some (Returned _ s') \<Rightarrow>
        forwards (heap s' 0) = None \<and> fallen s' 1 \<and> 0 \<in> set (keys (backwards (heap s' 1)))
    | _ \<Rightarrow> False)"
  by (simp add: prims numeral_2_eq_2)

text \<open>
  C5, amended. In a reachable state, after an \<^verbatim>\<open>a.Fall()\<close> that returns the forward
  set of \<open>a\<close> is nil, and every barrier \<open>f\<close> that was in the forward set of \<open>a\<close>
  before the call still lists \<open>a\<close> in its backward set: the call leaves the backward
  set of every initialised barrier as it was.
\<close>

theorem Fall_keeps_backward_entries:
  assumes "reachable s" and "Fall k a s = Some (Returned u s')"
  shows "forwards (heap s' a) = None \<and>
         (\<forall>f \<in> set (keys (forwards (heap s a))). a \<in> set (keys (backwards (heap s' f)))) \<and>
         (\<forall>f. initOnce (heap s f) = Done \<longrightarrow> backwards (heap s' f) = backwards (heap s f))"
proof -
  from assms(1) have w: "well_formed s" and e: "edges_ok s"
    by (rule reachable_wf, rule reachable_edges)
  from w assms(2) have "well_formed s'" by (rule wf_Fall)
  then have "fire_ok s' a" by (simp add: well_formed_def)
  with Fall_Returned_done(1)[OF assms(2)] have 1: "forwards (heap s' a) = None"
    by (simp add: fire_ok_def)
  have ft: "falls_to s s'" using assms(2) by (rule falls_to_Fall)
  have "a \<in> set (keys (backwards (heap s' f)))" if "f \<in> set (keys (forwards (heap s a)))" for f
  proof -
    from e that have "initOnce (heap s f) = Done" "a \<in> set (keys (backwards (heap s f)))"
      unfolding edges_ok_def by blast+
    with ft show ?thesis by (simp add: falls_to_def)
  qed
  moreover have "backwards (heap s' f) = backwards (heap s f)" if "initOnce (heap s f) = Done" for f
    using ft that by (simp add: falls_to_def)
  ultimately show ?thesis using 1 by blast
qed

text \<open>
  \<^verbatim>\<open>a.Forward(f); a.Fall()\<close> with \<open>a = 0\<close>, \<open>f = 1\<close>.
\<close>

theorem Fall_keeps_backward_entries_witness:
  "\<exists>s s'. Forward 1 0 1 (init_state (\<lambda>_. False)) = Some (Returned () s) \<and>
      Fall 2 0 s = Some (Returned () s') \<and> 1 \<in> set (keys (forwards (heap s 0))) \<and>
      forwards (heap s' 0) = None \<and> 0 \<in> set (keys (backwards (heap s' 1)))"
proof -
  have "\<exists>s. Forward 1 0 1 (init_state (\<lambda>_. False)) = Some (Returned () s) \<and>
      1 \<in> set (keys (forwards (heap s 0))) \<and> (\<exists>s'. Fall 2 0 s = Some (Returned () s'))"
    by (simp add: prims numeral_2_eq_2)
  then obtain s s' where F: "Forward 1 0 1 (init_state (\<lambda>_. False)) = Some (Returned () s)"
    and p: "1 \<in> set (keys (forwards (heap s 0)))"
    and G: "Fall 2 0 s = Some (Returned () s')" by blast
  from Fall_keeps_backward_entries[OF reachable.forward[OF reachable.start F] G] p F G
  show ?thesis by blast
qed

subsection \<open>C6: the hook comes first\<close>

text \<open>
  C6. In a reachable state let \<open>b\<close> be a barrier that has not fallen and has a hook.
  The call \<^verbatim>\<open>b.Fall()\<close> has an outcome \<open>r\<close> (every large enough bound on the call
  depth gives it, and no bound gives another). Whatever the outcome, what the call added
  to the log starts with the hook call of \<open>b\<close>, followed by the close of the channel
  of \<open>b\<close>; everything else the call did (the falls of the forward targets) comes after
  these two and holds no further hook call of \<open>b\<close>. The hook of \<open>b\<close> has then been
  called exactly once, and that stays so whatever is called later.
\<close>

theorem FallHook_first:
  assumes "reachable s" and "\<not> fallen s b" and "FallHook (heap s b)"
  shows "\<exists>k r. (\<forall>n\<ge>k. Fall n b s = Some r) \<and> (\<forall>n r'. Fall n b s = Some r' \<longrightarrow> r' = r) \<and>
           (\<exists>rest. trace (final r) = trace s @ HookCalled b # ChanClosed b # rest \<and>
                   HookCalled b \<notin> set rest) \<and>
           hook_count (final r) b = 1 \<and>
           (\<forall>s''. later (final r) s'' \<longrightarrow> hook_count s'' b = 1)"
proof -
  from reachable_Fall_returns_outcome[OF assms(1), of b]
  obtain k r where F: "\<forall>n\<ge>k. Fall n b s = Some r" by blast
  then have Fk: "Fall k b s = Some r" by simp
  then have "r' = r" if "Fall n b s = Some r'" for n r'
    using that by (rule Fall_outcome_unique)
  with F hook_then_close[OF assms Fk] show ?thesis by blast
qed

text \<open>
  Hooks on all barriers. The fall of \<open>0\<close> in the cycle of \<open>0\<close> and \<open>1\<close>, which
  blocks, and the fall of a zero-valued \<open>1\<close>, which returns.
\<close>

theorem FallHook_first_witness:
  "\<exists>s s' t. and_then (Forward 1 0 1 (init_state (\<lambda>_. True))) (Forward 1 1 0) = Some (Returned () s) \<and>
      Fall 3 0 s = Some (Blocked s') \<and> Fall 2 1 (init_state (\<lambda>_. True)) = Some (Returned () t) \<and>
      trace s' = HookCalled 0 # ChanClosed 0 # [HookCalled 1, ChanClosed 1] \<and>
      hook_count s' 0 = 1 \<and> (\<forall>s''. later s' s'' \<longrightarrow> hook_count s'' 0 = 1) \<and>
      trace t = [HookCalled 1, ChanClosed 1] \<and> hook_count t 1 = 1"
proof -
  have "\<exists>s0. Forward 1 0 1 (init_state (\<lambda>_. True)) = Some (Returned () s0) \<and>
      (\<exists>s. Forward 1 1 0 s0 = Some (Returned () s) \<and>
        \<not> fallen s 0 \<and> FallHook (heap s 0) \<and> trace s = [] \<and>
        (\<exists>s'. Fall 3 0 s = Some (Blocked s') \<and>
           trace s' = [HookCalled 0, ChanClosed 0, HookCalled 1, ChanClosed 1]))"
    by (simp add: prims numeral_3_eq_3)
  then obtain s0 s s' where F0: "Forward 1 0 1 (init_state (\<lambda>_. True)) = Some (Returned () s0)"
    and F: "Forward 1 1 0 s0 = Some (Returned () s)"
    and p: "\<not> fallen s 0" and h: "FallHook (heap s 0)"
    and G: "Fall 3 0 s = Some (Blocked s')"
    and t: "trace s' = [HookCalled 0, ChanClosed 0, HookCalled 1, ChanClosed 1]"
    by blast
  have "\<exists>t. Fall 2 1 (init_state (\<lambda>_. True)) = Some (Returned () t) \<and>
      trace t = [HookCalled 1, ChanClosed 1]"
    by (simp add: prims numeral_2_eq_2)
  then obtain t' where H: "Fall 2 1 (init_state (\<lambda>_. True)) = Some (Returned () t')"
    and tt: "trace t' = [HookCalled 1, ChanClosed 1]" by blast
  have p1: "\<not> fallen (init_state (\<lambda>_. True)) 1" "FallHook (heap (init_state (\<lambda>_. True)) 1)"
    by (simp_all add: prims)
  have r: "reachable s"
    by (rule reachable.forward[OF reachable.forward[OF reachable.start F0] F])
  from FallHook_first[OF r p h] G
  have "hook_count s' 0 = 1" "\<forall>s''. later s' s'' \<longrightarrow> hook_count s'' 0 = 1" by fastforce+
  moreover from FallHook_first[OF reachable.start p1] H
  have "hook_count t' 1 = 1" by fastforce
  ultimately show ?thesis using F0 F G H t tt by (auto simp: and_then_def)
qed

subsection \<open>C7: chained forwarding\<close>



subsection \<open>C8: fallen is permanent\<close>

text \<open>
  C8. A barrier is pending or fallen, as its channel is open or closed. A zero-valued
  barrier is pending. In a reachable state: a call of \<^verbatim>\<open>b.Fall()\<close> leaves \<open>b\<close> fallen,
  whatever its outcome; a fallen barrier is fallen in every state that any later calls of
  the package lead to, whatever their outcomes; and the channel of \<open>b\<close> has been closed
  once if \<open>b\<close> is fallen and never if it is pending, so the transition has happened
  exactly once or not at all.
\<close>

theorem fallen_is_permanent:
  assumes "reachable s"
  shows "\<not> fallen (init_state hk) b \<and>
         (\<forall>k r. Fall k b s = Some r \<longrightarrow> fallen (final r) b) \<and>
         (fallen s b \<longrightarrow> (\<forall>s'. later s s' \<longrightarrow> fallen s' b)) \<and>
         close_count s b = of_bool (fallen s b)"
proof -
  from assms have w: "well_formed s" by (rule reachable_wf)
  then have c: "chan_ok s b" and f: "fire_ok s b" by (simp_all add: well_formed_def)
  have 1: "\<not> fallen (init_state hk) b"
    by (simp add: fallen_iff init_state_def zero_barrier_def)
  have 2: "fallen (final r) b" if "Fall k b s = Some r" for k r
    using assms that by (rule reachable_Fall_outcome)
  have 3: "fallen s' b" if "fallen s b" and "later s s'" for s'
    using c later_evolves[OF that(2)] that(1) by (rule fallen_evolves)
  have 4: "close_count s b = of_bool (fallen s b)"
    using f by (cases "fallOnce (heap s b) = Fresh") (simp_all add: fire_ok_def)
  from 1 2 3 4 show ?thesis by blast
qed

text \<open>
  \<^verbatim>\<open>b.Fall()\<close> and then a \<^verbatim>\<open>Forward\<close> into \<open>b\<close>, with \<open>b = 0\<close>.
\<close>

theorem fallen_is_permanent_witness:
  "\<exists>s s'. Fall 1 0 (init_state (\<lambda>_. False)) = Some (Returned () s) \<and>
      Forward 1 1 0 s = Some (Returned () s') \<and>
      \<not> fallen (init_state (\<lambda>_. False)) 0 \<and> fallen s 0 \<and> fallen s' 0 \<and>
      close_count s 0 = 1"
proof -
  have "\<exists>s. Fall 1 0 (init_state (\<lambda>_. False)) = Some (Returned () s) \<and>
          (\<exists>s'. Forward 1 1 0 s = Some (Returned () s'))"
    by (simp add: prims)
  then obtain s s' where F: "Fall 1 0 (init_state (\<lambda>_. False)) = Some (Returned () s)"
    and G: "Forward 1 1 0 s = Some (Returned () s')" by blast
  have l: "later s s'" using later.forward[OF later.now G] by simp
  note p0 = fallen_is_permanent[OF reachable.start, where hk = "\<lambda>_. False" and b = 0]
  note p1 = fallen_is_permanent[OF reachable.fall[OF reachable.start F],
      where hk = "\<lambda>_. False" and b = 0]
  from p0 F have f: "fallen s 0" by fastforce
  with p1 l have "fallen s' 0" by blast
  moreover from p1 f have "close_count s 0 = 1" by simp
  ultimately show ?thesis using F G p0 f by blast
qed

subsection \<open>C10: one channel per barrier\<close>

text \<open>
  C10. Once \<^verbatim>\<open>b.Barrier()\<close> has returned the channel \<open>h\<close>, every later call of
  \<^verbatim>\<open>b.Barrier()\<close>, after any calls of the package (falls included) with any outcomes,
  returns the same \<open>h\<close> and leaves the state as it finds it. A call on a barrier that
  is already initialised changes nothing at all and returns the channel the barrier has.
  A call on a barrier that is not initialised returns the one channel object that its
  initialisation creates, and the state it leaves differs from the state before in
  exactly this: the new channel object is allocated (open), and \<open>b\<close> has this channel,
  two empty maps and a finished \<^verbatim>\<open>initOnce\<close>; the \<^verbatim>\<open>fallOnce\<close>, the hook and the
  mutex of \<open>b\<close>, every other barrier, every other channel and the log are as before.
  In every reachable state the call returns.
\<close>

theorem Barrier_same_channel:
  assumes "Barrier b s = Returned h s1" and "later s1 s2"
  shows "Barrier b s2 = Returned h s2 \<and>
         (initOnce (heap s b) = Done \<longrightarrow> s1 = s \<and> h = channel (heap s b)) \<and>
         (initOnce (heap s b) \<noteq> Done \<longrightarrow>
            initOnce (heap s b) = Fresh \<and> h = Some (next_chan s) \<and>
            s1 = s\<lparr>heap := (heap s)(b := heap s b\<lparr>channel := Some (next_chan s),
                       initOnce := Done, forwards := Some [], backwards := Some []\<rparr>),
                   closed := (closed s)(next_chan s := False),
                   next_chan := Suc (next_chan s)\<rparr>) \<and>
         (\<forall>t. reachable t \<longrightarrow> (\<exists>c t'. Barrier b t = Returned (Some c) t'))"
proof -
  from assms(1) have i: "init b s = Returned () s1" and h: "h = channel (heap s1 b)"
    by (cases "init b s"; simp add: Barrier_def)+
  from i have d: "initOnce (heap s1 b) = Done" by (rule init_fields)
  from assms(2) have "evolves s1 s2" by (rule later_evolves)
  with d have "initOnce (heap s2 b) = Done" "channel (heap s2 b) = channel (heap s1 b)"
    unfolding evolves_def by auto
  with h have 1: "Barrier b s2 = Returned h s2" by (simp add: Barrier_def init_def)
  have 2: "s1 = s \<and> h = channel (heap s b)" if "initOnce (heap s b) = Done"
    using i h that by (simp add: init_def)
  have 3: "initOnce (heap s b) = Fresh \<and> h = Some (next_chan s) \<and>
      s1 = s\<lparr>heap := (heap s)(b := heap s b\<lparr>channel := Some (next_chan s),
                 initOnce := Done, forwards := Some [], backwards := Some []\<rparr>),
             closed := (closed s)(next_chan s := False),
             next_chan := Suc (next_chan s)\<rparr>"
    if nd: "initOnce (heap s b) \<noteq> Done"
  proof -
    from i show ?thesis
    proof (cases rule: init_Returned)
      case old
      with nd show ?thesis by simp
    next
      case new
      from new(2) have "heap s b\<lparr>channel := Some (next_chan s), forwards := Some [],
            backwards := Some [], m := False, initOnce := Done\<rparr>
          = heap s b\<lparr>channel := Some (next_chan s), initOnce := Done, forwards := Some [],
            backwards := Some []\<rparr>"
        by (cases "heap s b") simp
      with new(3) have "s1 = s\<lparr>heap := (heap s)(b := heap s b\<lparr>channel := Some (next_chan s),
                 initOnce := Done, forwards := Some [], backwards := Some []\<rparr>),
             closed := (closed s)(next_chan s := False),
             next_chan := Suc (next_chan s)\<rparr>"
        by simp
      moreover from this h have "h = Some (next_chan s)" by simp
      ultimately show ?thesis using new(1) by simp
    qed
  qed
  have 4: "\<exists>c t'. Barrier b t = Returned (Some c) t'" if "reachable t" for t
  proof -
    from that have idl: "idle t" by (rule reachable_idle)
    then obtain t' where j: "init b t = Returned () t'" by (rule init_returns)
    from idl calm_init[OF j] have "idle t'" by (rule idle_calm)
    with init_fields(1)[OF j] obtain c where "channel (heap t' b) = Some c"
      by (auto simp: idle_def)
    with j show ?thesis by (simp add: Barrier_def)
  qed
  from 1 2 3 4 show ?thesis by blast
qed

text \<open>
  \<^verbatim>\<open>b.Barrier()\<close> before and after \<^verbatim>\<open>b.Fall()\<close>, with \<open>b = 0\<close> and a hook on \<open>b\<close>:
  the first call creates the channel \<open>0\<close> and neither fires the barrier nor writes to
  the log.
\<close>

theorem Barrier_same_channel_witness:
  "\<exists>s1 s2. Barrier 0 (init_state (\<lambda>_. True)) = Returned (Some 0) s1 \<and>
      Fall 1 0 s1 = Some (Returned () s2) \<and> fallen s2 0 \<and> next_chan s1 = 1 \<and>
      \<not> fallen s1 0 \<and> trace s1 = [] \<and> fallOnce (heap s1 0) = Fresh \<and>
      heap s1 1 = heap (init_state (\<lambda>_. True)) 1 \<and>
      Barrier 0 s1 = Returned (Some 0) s1 \<and> Barrier 0 s2 = Returned (Some 0) s2"
proof -
  have "\<exists>s1. Barrier 0 (init_state (\<lambda>_. True)) = Returned (Some 0) s1 \<and>
          (\<exists>s2. Fall 1 0 s1 = Some (Returned () s2) \<and> fallen s2 0)"
    by (simp add: prims)
  then obtain s1 s2 where B: "Barrier 0 (init_state (\<lambda>_. True)) = Returned (Some 0) s1"
    and F: "Fall 1 0 s1 = Some (Returned () s2)" and f: "fallen s2 0" by blast
  have l: "later s1 s2" using later.fall[OF later.now F] by simp
  have fr: "initOnce (heap (init_state (\<lambda>_. True)) 0) \<noteq> Done"
    "next_chan (init_state (\<lambda>_. True)) = 0"
    by (simp_all add: init_state_def zero_barrier_def)
  note a = Barrier_same_channel[OF B later.now] and c = Barrier_same_channel[OF B l]
  from a have "Barrier 0 s1 = Returned (Some 0) s1" by simp
  moreover from a fr have s1: "s1 = (init_state (\<lambda>_. True))\<lparr>heap := (heap (init_state (\<lambda>_. True)))
        (0 := heap (init_state (\<lambda>_. True)) 0\<lparr>channel := Some 0, initOnce := Done,
           forwards := Some [], backwards := Some []\<rparr>),
        closed := (closed (init_state (\<lambda>_. True)))(0 := False), next_chan := Suc 0\<rparr>"
    by simp
  then have "next_chan s1 = 1" "\<not> fallen s1 0" "trace s1 = []" "fallOnce (heap s1 0) = Fresh"
    "heap s1 1 = heap (init_state (\<lambda>_. True)) 1"
    by (simp_all add: fallen_iff init_state_def zero_barrier_def)
  moreover from c have "Barrier 0 s2 = Returned (Some 0) s2" by simp
  ultimately show ?thesis using B F f by blast
qed

section \<open>Further properties\<close>

subsection \<open>Fall called again after it has returned\<close>

text \<open>
  In a reachable state the call \<^verbatim>\<open>b.Fall()\<close> has an outcome, and \<open>N \<ge> 1\<close> calls in
  a row have the very same outcome, with the same final state. Whatever the outcome,
  the hook of \<open>b\<close> has then been called exactly once if \<open>b\<close> has a hook (and never
  otherwise), the channel of \<open>b\<close> has been closed exactly once, and \<open>b\<close> is fallen.
  If the call returns, every further call returns at once and leaves the state as it is.
\<close>

theorem Fall_again_after_return:
  assumes "reachable s" and "1 \<le> N"
  shows "\<exists>k r. (\<forall>n\<ge>k. Fall n b s = Some r \<and> Fall_times N n b s = Some r) \<and>
           hook_count (final r) b = of_bool (FallHook (heap s b)) \<and>
           close_count (final r) b = 1 \<and> fallen (final r) b \<and>
           (\<forall>u s1. r = Returned u s1 \<longrightarrow> (\<forall>n\<ge>1. Fall n b s1 = Some (Returned () s1)))"
proof -
  from reachable_Fall_returns_outcome[OF assms(1), of b]
  obtain k r where F: "\<forall>n\<ge>k. Fall n b s = Some r" by blast
  then have Fk: "Fall k b s = Some r" by simp
  from assms(2) obtain M where N: "N = Suc M" by (cases N) simp_all
  have noop: "Fall (Suc j) b s1 = Some (Returned () s1)" if r: "r = Returned u s1" for u s1 j
  proof -
    from Fk r have "Fall k b s = Some (Returned u s1)" by simp
    note d = Fall_Returned_done[OF this]
    from d(2,1) show ?thesis by (rule Fall_noop)
  qed
  have again: "Fall_times N n b s = Some r" if n: "k \<le> n" for n
  proof (cases r)
    case (Returned u s1)
    from F n have Fn: "Fall n b s = Some r" by simp
    then obtain j where j: "n = Suc j" by (cases n) simp_all
    from Fk Returned have "Fall k b s = Some (Returned u s1)" by simp
    note d = Fall_Returned_done[OF this]
    have "Fall_times M (Suc j) b s1 = Some (Returned () s1)"
      using d(2,1) by (rule Fall_times_noop)
    with Fn Returned show ?thesis by (simp add: N j and_then_def)
  next
    case (Blocked s1)
    with F n show ?thesis by (simp add: N and_then_def)
  next
    case (Panicked s1)
    with F n show ?thesis by (simp add: N and_then_def)
  qed
  have later: "Fall n b s1 = Some (Returned () s1)" if "r = Returned u s1" and "1 \<le> n" for u s1 n
  proof -
    from that(2) obtain j where "n = Suc j" by (cases n) simp_all
    with noop[OF that(1)] show ?thesis by simp
  qed
  from F again later reachable_Fall_outcome[OF assms(1) Fk] show ?thesis by blast
qed

text \<open>
  Three calls on a zero-valued barrier with a hook.
\<close>

theorem Fall_again_after_return_witness:
  "\<exists>s1. Fall_times 3 1 0 (init_state (\<lambda>_. True)) = Some (Returned () s1) \<and>
        hook_count s1 0 = 1 \<and> close_count s1 0 = 1 \<and> fallen s1 0 \<and>
        Fall 1 0 s1 = Some (Returned () s1)"
proof -
  have "\<exists>s1. Fall 1 0 (init_state (\<lambda>_. True)) = Some (Returned () s1) \<and>
      Fall_times 3 1 0 (init_state (\<lambda>_. True)) = Some (Returned () s1)"
    by (simp add: prims numeral_3_eq_3)
  then obtain s1 where F: "Fall 1 0 (init_state (\<lambda>_. True)) = Some (Returned () s1)"
    and t: "Fall_times 3 1 0 (init_state (\<lambda>_. True)) = Some (Returned () s1)" by blast
  have "(1::nat) \<le> 3" by simp
  from Fall_again_after_return[OF reachable.start this, of 0 "\<lambda>_. True"]
  obtain k r where a: "\<forall>n\<ge>k. Fall n 0 (init_state (\<lambda>_. True)) = Some r \<and>
        Fall_times 3 n 0 (init_state (\<lambda>_. True)) = Some r"
    and b: "hook_count (final r) 0 = of_bool (FallHook (heap (init_state (\<lambda>_. True)) 0))"
      "close_count (final r) 0 = 1" "fallen (final r) 0"
    and c: "\<forall>u s1. r = Returned u s1 \<longrightarrow> (\<forall>n\<ge>1. Fall n 0 s1 = Some (Returned () s1))"
    by blast
  from a have "Fall (max k 1) 0 (init_state (\<lambda>_. True)) = Some r" by simp
  with F have r: "r = Returned () s1" using Fall_outcome_unique by blast
  from c r have "Fall 1 0 s1 = Some (Returned () s1)" by blast
  moreover from b r have "hook_count s1 0 = 1" "close_count s1 0 = 1" "fallen s1 0"
    by (simp_all add: init_state_def)
  ultimately show ?thesis using t by blast
qed

subsection \<open>Edges come in pairs\<close>

text \<open>
  In a reachable state, if \<open>f\<close> is in the forward set of \<open>b\<close>, then \<open>b\<close> is in
  the backward set of \<open>f\<close>, \<open>f\<close> is initialised, and \<open>b\<close> has not fallen.
\<close>

theorem forward_edges_have_back_references:
  assumes "reachable s" and "f \<in> set (keys (forwards (heap s b)))"
  shows "b \<in> set (keys (backwards (heap s f))) \<and> initOnce (heap s f) = Done \<and> \<not> fallen s b"
proof -
  from assms(1) have "edges_ok s" by (rule reachable_edges)
  with assms(2) have "b \<in> set (keys (backwards (heap s f)))" "initOnce (heap s f) = Done"
    unfolding edges_ok_def by blast+
  moreover have "\<not> fallen s b"
  proof
    assume "fallen s b"
    then have "fallOnce (heap s b) = Done" by (simp add: reachable_fallen_Done[OF assms(1)])
    moreover from assms(1) have "fire_ok s b" using reachable_wf by (simp add: well_formed_def)
    ultimately have "forwards (heap s b) = None" by (simp add: fire_ok_def)
    with assms(2) show False by simp
  qed
  ultimately show ?thesis by simp
qed

text \<open>
  After \<^verbatim>\<open>a.Forward(b)\<close> with \<open>a = 0\<close>, \<open>b = 1\<close>.
\<close>

theorem forward_edges_have_back_references_witness:
  "\<exists>s. Forward 1 0 1 (init_state (\<lambda>_. False)) = Some (Returned () s) \<and>
     1 \<in> set (keys (forwards (heap s 0))) \<and> 0 \<in> set (keys (backwards (heap s 1))) \<and>
     initOnce (heap s 1) = Done \<and> \<not> fallen s 0"
proof -
  have "\<exists>s. Forward 1 0 1 (init_state (\<lambda>_. False)) = Some (Returned () s) \<and>
     1 \<in> set (keys (forwards (heap s 0)))"
    by (simp add: prims)
  then obtain s where F: "Forward 1 0 1 (init_state (\<lambda>_. False)) = Some (Returned () s)"
    and p: "1 \<in> set (keys (forwards (heap s 0)))" by blast
  from forward_edges_have_back_references[OF reachable.forward[OF reachable.start F] p] F p
  show ?thesis by blast
qed

subsection \<open>A fall does not travel backwards\<close>

text \<open>
  For distinct zero-valued barriers \<open>b\<close> and \<open>f\<close>: after \<^verbatim>\<open>b.Forward(f)\<close> the call
  \<^verbatim>\<open>f.Fall()\<close> returns, \<open>f\<close> is fallen, \<open>b\<close> is not, and \<open>f\<close> has been removed
  from the forward set of \<open>b\<close>, which is empty again.
\<close>

theorem fall_of_target_spares_source:
  assumes "b \<noteq> f" and "1 \<le> n"
  shows "\<exists>s'. and_then (Forward k b f (init_state hk)) (Fall n f) = Some (Returned () s') \<and>
           fallen s' f \<and> \<not> fallen s' b \<and> forwards (heap s' b) = Some []"
proof -
  from assms(2) obtain j where n: "n = Suc j" by (cases n) simp_all
  from assms(1) show ?thesis unfolding n by (simp add: prims)
qed

text \<open>
  The barriers \<open>0\<close> and \<open>1\<close>.
\<close>

theorem fall_of_target_spares_source_witness:
  "\<exists>s'. and_then (Forward 1 0 1 (init_state (\<lambda>_. False))) (Fall 1 1) = Some (Returned () s') \<and>
           fallen s' 1 \<and> \<not> fallen s' 0 \<and> forwards (heap s' 0) = Some []"
proof -
  have "(0::nat) \<noteq> 1" and "(1::nat) \<le> 1" by simp_all
  then show ?thesis by (rule fall_of_target_spares_source)
qed

end
